theory Spec2Isabelle
  imports Complex_Main "HOL-Library.Word" "HOL-Library.Sublist"
begin

section \<open>Phase 1 of bulk\_extractor: data model\<close>

text \<open>
  The development embeds \<^verbatim>\<open>BulkExtractor_Phase1\<close> (get\_sbuf,
  make\_sorted\_random\_blocklist, send\_data\_to\_workers, the hash emission of
  wait\_for\_workers) and the recursion step of \<^verbatim>\<open>scan_gzip\<close>.
  Exceptions are values of \<open>exn\<close>; a function that may throw returns \<open>exn + 'a\<close>
  together with the state it leaves behind.
\<close>

type_synonym byte = "8 word"
type_synonym u_int = "32 word"

subsection \<open>Positions\<close>

text \<open>
  Modelled from the spec: \<^verbatim>\<open>pos0_t\<close>, its operators and \<^verbatim>\<open>str()\<close> are declared in
  be13\_api, which is not part of the sources at hand. The spec describes a position as the
  provenance path of a byte, an ordered list of segments: first a byte offset within the
  image, then tags, each optionally followed by a sub-offset, stringified as in
  \<^verbatim>\<open>12345-GZIP-0\<close>. The driver reads the numeric field \<^verbatim>\<open>pos0.offset\<close> and compares
  it with the next offset to hash, so the record keeps the final offset of the list apart
  from the segments before it; \<open>segments\<close> is the whole list.
\<close>

datatype segment = Offset nat | Tag string

record pos0_t =
  path :: "segment list"
  offset :: nat

definition segments :: "pos0_t \<Rightarrow> segment list" where
  "segments p = path p @ [Offset (offset p)]"



text \<open>Decimal rendering of an unsigned number, as \<^verbatim>\<open>operator<<\<close> prints it.\<close>

definition digit_char :: "nat \<Rightarrow> char" where
  "digit_char d =
     (if d = 0 then CHR ''0'' else if d = 1 then CHR ''1'' else if d = 2 then CHR ''2''
      else if d = 3 then CHR ''3'' else if d = 4 then CHR ''4'' else if d = 5 then CHR ''5''
      else if d = 6 then CHR ''6'' else if d = 7 then CHR ''7'' else if d = 8 then CHR ''8''
      else CHR ''9'')"

function itos :: "nat \<Rightarrow> string" where
  "itos n = (if n < 10 then [digit_char n] else itos (n div 10) @ [digit_char (n mod 10)])"
  by pat_completeness auto
termination
  by (relation "measure id") auto

declare itos.simps [simp del]

fun segment_str :: "segment \<Rightarrow> string" where
  "segment_str (Offset n) = itos n"
| "segment_str (Tag t) = t"

fun join_dash :: "string list \<Rightarrow> string" where
  "join_dash [] = []"
| "join_dash [s] = s"
| "join_dash (s # t # ss) = s @ ''-'' @ join_dash (t # ss)"

text \<open>Modelled from the spec: \<^verbatim>\<open>str()\<close>, the segments joined by dashes.\<close>

definition pos0_str :: "pos0_t \<Rightarrow> string" where
  "pos0_str p = join_dash (map segment_str (segments p))"

subsection \<open>Page buffers, image and iterator\<close>

record sbuf_t =
  pos0 :: pos0_t
  buf :: "byte list"
  pagesize :: nat
  bufsize :: nat

text \<open>
  Modelled from the spec: the image abstraction and \<^verbatim>\<open>image_process::iterator\<close> are
  external to the sources at hand. The image is a byte sequence cut into pages of a fixed
  size; the iterator carries a raw offset and a page number, advances one page at a time,
  is at its end once the raw offset reaches the image size, and \<^verbatim>\<open>seek_block b\<close>
  moves it to block \<open>b\<close>. Offsets are 64-bit in the program; the model uses \<open>nat\<close>
  and so covers images below \<open>2^64\<close> bytes.
\<close>

record image =
  img_pagesize :: nat
  img_marginsize :: nat
  img_data :: "byte list"

record iterator =
  raw_offset :: nat
  page_number :: nat

definition image_size :: "image \<Rightarrow> nat" where
  "image_size img = length (img_data img)"

definition it_begin :: iterator where
  "it_begin = \<lparr>raw_offset = 0, page_number = 0\<rparr>"

definition it_at_end :: "image \<Rightarrow> iterator \<Rightarrow> bool" where
  "it_at_end img it = (image_size img \<le> raw_offset it)"

definition it_next :: "image \<Rightarrow> iterator \<Rightarrow> iterator" where
  "it_next img it = \<lparr>raw_offset = raw_offset it + img_pagesize img,
                     page_number = page_number it + 1\<rparr>"

definition set_raw_offset :: "nat \<Rightarrow> iterator \<Rightarrow> iterator" where
  "set_raw_offset anOffset it = it\<lparr>raw_offset := anOffset\<rparr>"

definition seek_block :: "image \<Rightarrow> nat \<Rightarrow> iterator \<Rightarrow> iterator" where
  "seek_block img block it = \<lparr>raw_offset = block * img_pagesize img, page_number = block\<rparr>"

definition it_max_blocks :: "image \<Rightarrow> nat" where
  "it_max_blocks img = (image_size img + img_pagesize img - 1) div img_pagesize img"

definition get_pos0 :: "iterator \<Rightarrow> pos0_t" where
  "get_pos0 it = \<lparr>path = [], offset = raw_offset it\<rparr>"

text \<open>
  Modelled from the spec: the page buffer that \<^verbatim>\<open>sbuf_alloc\<close> returns when it
  succeeds, for the page the iterator stands on: the logical page and its margin, as far as
  the image reaches.
\<close>

definition page_at :: "image \<Rightarrow> iterator \<Rightarrow> sbuf_t" where
  "page_at img it =
     (let bytes = take (img_pagesize img + img_marginsize img) (drop (raw_offset it) (img_data img))
      in \<lparr>pos0 = get_pos0 it, buf = bytes,
          pagesize = min (img_pagesize img) (length bytes), bufsize = length bytes\<rparr>)"

subsection \<open>Exceptions, configuration and the driver's state\<close>

datatype exn =
    Bad_alloc
  | Runtime_error string
  | Read_error string

fun what :: "exn \<Rightarrow> string" where
  "what Bad_alloc = ''std::bad_alloc''"
| "what (Runtime_error m) = m"
| "what (Read_error m) = m"

text \<open>
  What one call of \<^verbatim>\<open>it.sbuf_alloc()\<close> does is decided by the environment: it returns
  the page, throws \<^verbatim>\<open>std::bad_alloc\<close>, or throws another exception. The environment is
  a script of outcomes, one per call; once the script is used up every call succeeds.
\<close>

datatype alloc_outcome = Alloc_ok | Alloc_bad_alloc | Alloc_throws string

text \<open>
  Modelled from the spec: \<^verbatim>\<open>Config\<close> and the predicate \<^verbatim>\<open>sampling()\<close> are declared in
  headers that are not at hand. The record has the fields that the functions below read;
  \<open>sampling\<close> is the value of \<^verbatim>\<open>sampling()\<close>, which the spec ties to a sampling
  fraction other than 0, and \<open>sampling_fraction\<close> is the value of the field, which
  \<^verbatim>\<open>set_sampling_parameters\<close> fills with the double that \<^verbatim>\<open>atof\<close> returns.
\<close>

record config =
  max_bad_alloc_errors :: u_int
  retry_seconds :: nat
  opt_offset_start :: nat
  opt_offset_end :: nat
  opt_page_start :: nat
  opt_notify_rate :: nat
  opt_quiet :: bool
  opt_report_read_errors :: bool
  sampling :: bool
  sampling_fraction :: rat

datatype report_entry = Debug_exception string "(string \<times> string) list"

record phase1 =
  seen_page_ids :: "string set"
  sha1g :: "byte list option"
  sha1_next :: nat
  total_bytes :: nat
  notify_ctr :: nat
  tp :: "sbuf_t list"
  xreport :: "report_entry list"
  notified :: "string list"
  slept :: "nat list"
  alloc_script :: "alloc_outcome list"
  alloc_calls :: nat

text \<open>
  \<open>sha1g\<close> is the SHA-1 generator: \<open>None\<close> is the null pointer, \<open>Some bs\<close> a live
  generator that has been fed the bytes \<open>bs\<close>. \<open>tp\<close> lists the page buffers of the
  work units pushed to the thread pool, oldest first. \<open>xreport\<close> lists the
  \<^verbatim>\<open>debug:exception\<close> elements written, \<open>slept\<close> the sleeps taken (in seconds),
  \<open>alloc_calls\<close> counts the calls of \<^verbatim>\<open>sbuf_alloc\<close>.
\<close>

definition after_alloc :: "phase1 \<Rightarrow> phase1" where
  "after_alloc st =
     st\<lparr>alloc_script := tl (alloc_script st), alloc_calls := Suc (alloc_calls st)\<rparr>"

definition sbuf_alloc :: "image \<Rightarrow> iterator \<Rightarrow> phase1 \<Rightarrow> (exn + sbuf_t) \<times> phase1" where
  "sbuf_alloc img it st =
     (case alloc_script st of
        [] \<Rightarrow> (Inr (page_at img it), after_alloc st)
      | Alloc_ok # _ \<Rightarrow> (Inr (page_at img it), after_alloc st)
      | Alloc_bad_alloc # _ \<Rightarrow> (Inl Bad_alloc, after_alloc st)
      | Alloc_throws m # _ \<Rightarrow> (Inl (Read_error m), after_alloc st))"

definition xmlout :: "report_entry \<Rightarrow> phase1 \<Rightarrow> phase1" where
  "xmlout e st = st\<lparr>xreport := xreport st @ [e]\<rparr>"

definition sleep_for :: "nat \<Rightarrow> phase1 \<Rightarrow> phase1" where
  "sleep_for secs st = st\<lparr>slept := slept st @ [secs]\<rparr>"

section \<open>get\_sbuf: the allocator-retry loop\<close>

text \<open>
  The \<^verbatim>\<open>for\<close> loop of \<^verbatim>\<open>get_sbuf\<close>, entered with the current \<open>retry_count\<close>.
  The counter and the bound are \<^verbatim>\<open>u_int\<close>; \<open>max_bad_alloc_errors + 1\<close> wraps.
\<close>

definition bad_alloc_entry :: "iterator \<Rightarrow> u_int \<Rightarrow> report_entry" where
  "bad_alloc_entry it retry_count =
     Debug_exception (what Bad_alloc)
       [(''name'', ''bad_alloc''), (''pos0'', pos0_str (get_pos0 it)),
        (''retry_count'', itos (unat retry_count))]"

text \<open>The handler of \<^verbatim>\<open>std::bad_alloc\<close> and the wait that follows it.\<close>

definition after_bad_alloc :: "config \<Rightarrow> iterator \<Rightarrow> u_int \<Rightarrow> phase1 \<Rightarrow> phase1" where
  "after_bad_alloc c it retry_count st =
     (if retry_count < max_bad_alloc_errors c + 1 then sleep_for (retry_seconds c) else id)
       (xmlout (bad_alloc_entry it retry_count) st)"

function get_sbuf_loop ::
  "config \<Rightarrow> image \<Rightarrow> iterator \<Rightarrow> u_int \<Rightarrow> phase1 \<Rightarrow> (exn + sbuf_t) \<times> phase1" where
  "get_sbuf_loop c img it retry_count st =
     (if retry_count < max_bad_alloc_errors c then
        (case sbuf_alloc img it st of
           (Inr sbuf, st1) \<Rightarrow> (Inr sbuf, st1)
         | (Inl Bad_alloc, st1) \<Rightarrow>
             get_sbuf_loop c img it (retry_count + 1) (after_bad_alloc c it retry_count st1)
         | (Inl e, st1) \<Rightarrow> (Inl e, st1))
      else (Inl (Runtime_error ''too many sbuf allocation errors''), st))"
  by pat_completeness auto
termination
proof (relation "measure (\<lambda>(c, img, it, retry_count, st).
                   unat (max_bad_alloc_errors c) - unat retry_count)")
  show "wf (measure (\<lambda>(c, img, it, retry_count, st).
                   unat (max_bad_alloc_errors c) - unat retry_count))"
    by simp
next
  fix c :: config and img :: image and it :: iterator and retry_count :: u_int
    and st st1 :: phase1
  assume "retry_count < max_bad_alloc_errors c"
  then have "unat (max_bad_alloc_errors c) - unat (retry_count + 1)
               < unat (max_bad_alloc_errors c) - unat retry_count"
    by unat_arith
  then show "((c, img, it, retry_count + 1, after_bad_alloc c it retry_count st1),
          c, img, it, retry_count, st)
         \<in> measure (\<lambda>(c, img, it, retry_count, st).
                   unat (max_bad_alloc_errors c) - unat retry_count)"
    by simp
qed

declare get_sbuf_loop.simps [simp del]

definition get_sbuf :: "config \<Rightarrow> image \<Rightarrow> iterator \<Rightarrow> phase1 \<Rightarrow> (exn + sbuf_t) \<times> phase1" where
  "get_sbuf c img it st = get_sbuf_loop c img it 0 st"

section \<open>make\_sorted\_random\_blocklist: the sampling plan\<close>

text \<open>
  \<^verbatim>\<open>blocklist_t\<close> is an ordered set of block numbers: a strictly ascending list,
  iterated from its head. Inserting a number that is present changes nothing.
\<close>

type_synonym blocklist_t = "nat list"

definition blocklist_insert :: "nat \<Rightarrow> blocklist_t \<Rightarrow> blocklist_t" where
  "blocklist_insert x blocklist = (if x \<in> set blocklist then blocklist else insort x blocklist)"

subsection \<open>The arithmetic of the type float\<close>

text \<open>
  The parameter \<^verbatim>\<open>frac\<close> is a float (IEEE binary32), and the loop condition
  \<^verbatim>\<open>blocklist->size() < max_blocks * frac\<close> is evaluated in that type: both integers
  are converted to float, the product is rounded to float, and the comparison is of floats.
  Values are rationals here; \<open>round_binary32\<close> rounds a rational to the nearest value with
  a significand of 24 bits and an exponent of at least \<open>-149\<close>, ties to the even
  significand. Overflow to infinity is left out: the integers here are below \<open>2^64\<close>
  and the fractions that pass \<^verbatim>\<open>set_sampling_parameters\<close> below 1.

  \<open>flog2 n\<close> is the position of the leading bit of \<open>n\<close>, and \<open>ilog2 x\<close> the exponent
  \<open>e\<close> with \<open>2^e \<le> x < 2^(e+1)\<close> of a positive rational.
\<close>

fun flog2 :: "nat \<Rightarrow> nat" where
  "flog2 n = (if n < 2 then 0 else Suc (flog2 (n div 2)))"

declare flog2.simps [simp del]

definition ilog2 :: "rat \<Rightarrow> int" where
  "ilog2 x =
     (if 1 \<le> x then int (flog2 (nat \<lfloor>x\<rfloor>))
      else (let n = nat \<lceil>1 / x\<rceil> in if n \<le> 1 then 0 else - int (Suc (flog2 (n - 1)))))"

definition round_half_even :: "rat \<Rightarrow> int" where
  "round_half_even x =
     (let n = \<lfloor>x\<rfloor>; d = x - of_int n
      in if d < 1 / 2 then n else if 1 / 2 < d then n + 1 else if even n then n else n + 1)"

definition round_binary32 :: "rat \<Rightarrow> rat" where
  "round_binary32 x =
     (if x = 0 then 0
      else (let e = max (- 149) (ilog2 \<bar>x\<bar> - 23)
            in sgn x * of_int (round_half_even (\<bar>x\<bar> / 2 powi e)) * 2 powi e))"

text \<open>The conversion of an unsigned integer to float, and the product of two floats.\<close>

definition float_of_nat :: "nat \<Rightarrow> rat" where
  "float_of_nat n = round_binary32 (of_nat n)"

definition float_mult :: "rat \<Rightarrow> rat \<Rightarrow> rat" where
  "float_mult a b = round_binary32 (a * b)"

text \<open>
  The literal \<^verbatim>\<open>0.2\<close> of the guard is a double: its exact value is
  \<open>3602879701896397 / 2^54\<close>, and the guard compares \<^verbatim>\<open>frac\<close> with it exactly.
\<close>

definition double_0_2 :: rat where
  "double_0_2 = 3602879701896397 / 18014398509481984"

subsection \<open>The random numbers\<close>

text \<open>
  \<^verbatim>\<open>std::default_random_engine\<close> and \<^verbatim>\<open>std::uniform_int_distribution\<close> belong to
  the standard library, which is a parameter of the model: the state of a
  default-constructed engine, and what a call \<^verbatim>\<open>distribution(generator)\<close> of a
  distribution over the closed range from 0 to \<open>b\<close> does with an engine in state \<open>g\<close>:
  the number returned and the state the engine is left in, or \<open>None\<close> when the call does
  not return. The engine is constructed anew in every call of
  \<^verbatim>\<open>make_sorted_random_blocklist\<close>, so with a given library the numbers drawn are the
  same in every run.
\<close>

record 'g random_library =
  default_random_engine :: 'g
  uniform_int_distribution :: "nat \<Rightarrow> 'g \<Rightarrow> (nat \<times> 'g) option"

text \<open>
  The library of GCC (libstdc++): the default engine is \<^verbatim>\<open>minstd_rand0\<close>, the linear
  congruential engine with multiplier 16807 and modulus \<open>2^31 - 1\<close>, whose numbers run
  from 1 to \<open>2^31 - 2\<close> and whose default seed is 1. For a range smaller than the engine's
  the distribution scales down: it draws from the engine again while the number is not
  below the largest multiple of the size of the range, and then divides. For a larger range
  it draws the upper part with a distribution of its own, adds a number of the engine in
  unsigned 64-bit arithmetic, and tries again while the sum is out of range or has wrapped
  around. For the engine's own range it returns the engine's number.
\<close>

definition minstd_rand0 :: "nat \<Rightarrow> nat" where
  "minstd_rand0 x = 16807 * x mod 2147483647"

partial_function (option) libstdcxx_distribution :: "nat \<Rightarrow> nat \<Rightarrow> (nat \<times> nat) option" where
  "libstdcxx_distribution b x =
     (let urngrange = 2147483646 - 1 in
      if b < urngrange then
        (let uerange = b + 1; scaling = urngrange div uerange; past = uerange * scaling;
             x' = minstd_rand0 x; ret = x' - 1
         in if past \<le> ret then libstdcxx_distribution b x' else Some (ret div scaling, x'))
      else if urngrange < b then
        Option.bind (libstdcxx_distribution (b div (urngrange + 1)) x)
          (\<lambda>(high, x1).
             let tmp = (urngrange + 1) * high mod 2 ^ 64; x2 = minstd_rand0 x1;
                 ret = (tmp + (x2 - 1)) mod 2 ^ 64
             in if b < ret \<or> ret < tmp then libstdcxx_distribution b x2 else Some (ret, x2))
      else (let x' = minstd_rand0 x in Some (x' - 1, x')))"

declare libstdcxx_distribution.simps [code]

definition libstdcxx :: "nat random_library" where
  "libstdcxx = \<lparr>default_random_engine = 1, uniform_int_distribution = libstdcxx_distribution\<rparr>"

subsection \<open>The drawing loop\<close>

partial_function (option) blocklist_loop ::
  "(nat \<Rightarrow> 'g \<Rightarrow> (nat \<times> 'g) option) \<Rightarrow> nat \<Rightarrow> rat \<Rightarrow> blocklist_t \<Rightarrow> 'g \<Rightarrow> blocklist_t option" where
  "blocklist_loop distribution max_blocks frac' blocklist generator =
     (if float_of_nat (length blocklist) < float_mult (float_of_nat max_blocks) frac'
      then (case distribution max_blocks generator of
              None \<Rightarrow> None
            | Some (x, generator') \<Rightarrow>
                blocklist_loop distribution max_blocks frac' (blocklist_insert x blocklist) generator')
      else Some blocklist)"

declare blocklist_loop.simps [code]

definition make_sorted_random_blocklist ::
  "'g random_library \<Rightarrow> blocklist_t \<Rightarrow> nat \<Rightarrow> rat \<Rightarrow> (exn + blocklist_t) option" where
  "make_sorted_random_blocklist lib blocklist max_blocks frac' =
     (if frac' > double_0_2 then Some (Inl (Runtime_error ''Specify frac<0.2''))
      else map_option Inr
             (blocklist_loop (uniform_int_distribution lib) max_blocks frac' blocklist
                (default_random_engine lib)))"

section \<open>send\_data\_to\_workers: the dispatch loop\<close>

text \<open>\<^verbatim>\<open>notify_ctr++ >= config.opt_notify_rate\<close> compares the old value.\<close>

definition notify_user :: "config \<Rightarrow> iterator \<Rightarrow> phase1 \<Rightarrow> phase1" where
  "notify_user c it st =
     (if opt_notify_rate c \<le> notify_ctr st
      then st\<lparr>notify_ctr := 0, notified := notified st @ [pos0_str (get_pos0 it)]\<rparr>
      else st\<lparr>notify_ctr := notify_ctr st + 1\<rparr>)"

text \<open>The SHA-1 step of the loop body.\<close>

definition hash_page :: "sbuf_t \<Rightarrow> phase1 \<Rightarrow> phase1" where
  "hash_page sbuf st =
     (case sha1g st of
        None \<Rightarrow> st
      | Some fed \<Rightarrow>
          if offset (pos0 sbuf) = sha1_next st
          then st\<lparr>sha1g := Some (fed @ take (pagesize sbuf) (buf sbuf)),
                  sha1_next := sha1_next st + pagesize sbuf\<rparr>
          else st\<lparr>sha1g := None\<rparr>)"

definition page_exception_entry :: "exn \<Rightarrow> iterator \<Rightarrow> report_entry" where
  "page_exception_entry e it =
     Debug_exception (what e) [(''name'', what e), (''pos0'', pos0_str (get_pos0 it))]"

text \<open>
  The body of the loop for the page the iterator stands on: the page and offset gates,
  the seen-page lookup, and the \<^verbatim>\<open>try\<close> block with its handler, which catches every
  \<^verbatim>\<open>std::exception\<close> that leaves \<^verbatim>\<open>get_sbuf\<close>. \<open>schedule_work\<close> is the rest of
  the \<^verbatim>\<open>try\<close> block once the page is there: hash, byte count, push, notification.
\<close>

definition schedule_work :: "config \<Rightarrow> iterator \<Rightarrow> sbuf_t \<Rightarrow> phase1 \<Rightarrow> phase1" where
  "schedule_work c it sbuf st1 =
     (let st2 = hash_page sbuf st1;
          st3 = st2\<lparr>total_bytes := total_bytes st2 + pagesize sbuf\<rparr>;
          st4 = st3\<lparr>tp := tp st3 @ [sbuf]\<rparr>
      in if opt_quiet c = False then notify_user c it st4 else st4)"

definition process_page :: "config \<Rightarrow> image \<Rightarrow> iterator \<Rightarrow> phase1 \<Rightarrow> phase1" where
  "process_page c img it st =
     (if opt_page_start c \<le> page_number it \<and> opt_offset_start c \<le> raw_offset it then
        if pos0_str (get_pos0 it) \<notin> seen_page_ids st then
          (case get_sbuf c img it st of
             (Inr sbuf, st1) \<Rightarrow> schedule_work c it sbuf st1
           | (Inl e, st1) \<Rightarrow> xmlout (page_exception_entry e it) st1)
        else st
      else st)"

text \<open>
  The head of the loop: in sampling mode the iterator is moved to the next block of the
  plan, otherwise it stays; \<open>None\<close> is the \<^verbatim>\<open>break\<close> at the end of the plan or of
  the image.
\<close>

definition candidate :: "config \<Rightarrow> image \<Rightarrow> blocklist_t \<Rightarrow> iterator \<Rightarrow> iterator option" where
  "candidate c img si it =
     (if sampling c then
        (case si of [] \<Rightarrow> None | block # _ \<Rightarrow> Some (seek_block img block it))
      else
        (if it_at_end img it then None else Some it))"

definition past_offset_end :: "config \<Rightarrow> iterator \<Rightarrow> bool" where
  "past_offset_end c it = (opt_offset_end c \<noteq> 0 \<and> opt_offset_end c \<le> raw_offset it)"

partial_function (option) dispatch_loop ::
  "config \<Rightarrow> image \<Rightarrow> blocklist_t \<Rightarrow> iterator \<Rightarrow> phase1 \<Rightarrow> phase1 option" where
  "dispatch_loop c img si it st =
     (case candidate c img si it of
        None \<Rightarrow> Some st
      | Some it1 \<Rightarrow>
          if past_offset_end c it1 then Some st
          else
            dispatch_loop c img
              (if sampling c then tl si else si)
              (if sampling c then it1 else it_next img it1)
              (process_page c img it1 st))"

declare dispatch_loop.simps [code]

text \<open>
  The field \<^verbatim>\<open>config.sampling_fraction\<close> is passed for the float parameter
  \<^verbatim>\<open>frac\<close>: a double is narrowed to the nearest float there (a value that is a float
  already stays as it is).
\<close>

definition send_data_to_workers ::
  "config \<Rightarrow> image \<Rightarrow> 'g random_library \<Rightarrow> phase1 \<Rightarrow> (exn + phase1) option" where
  "send_data_to_workers c img lib st =
     (let it = (if opt_offset_start c \<noteq> 0 then set_raw_offset (opt_offset_start c) it_begin
                else it_begin)
      in if sampling c then
           (case make_sorted_random_blocklist lib [] (it_max_blocks img)
                   (round_binary32 (sampling_fraction c)) of
              None \<Rightarrow> None
            | Some (Inl e) \<Rightarrow> Some (Inl e)
            | Some (Inr blocks_to_sample) \<Rightarrow>
                map_option Inr (dispatch_loop c img blocks_to_sample it st))
         else map_option Inr (dispatch_loop c img [] it st))"

text \<open>
  The hash element of \<^verbatim>\<open>wait_for_workers\<close>: written only while the generator is
  live. SHA-1 itself is a parameter.
\<close>

definition hashdigest :: "(byte list \<Rightarrow> 'd) \<Rightarrow> phase1 \<Rightarrow> 'd option" where
  "hashdigest sha1 st = map_option sha1 (sha1g st)"

section \<open>scan\_gzip: recursion into a decompressed buffer\<close>






section \<open>Auxiliary notions and concrete inputs\<close>

text \<open>The bytes of the logical page of a buffer: what the hash is fed.\<close>

definition page_bytes :: "sbuf_t \<Rightarrow> byte list" where
  "page_bytes sbuf = take (pagesize sbuf) (buf sbuf)"

text \<open>
  A configuration with no gates and no sampling, an image of three pages of two bytes with
  a margin of one byte, and the state of a driver that has done nothing yet; the closed
  instances below are runs over these.
\<close>


definition example_config :: config where
  "example_config =
     \<lparr>max_bad_alloc_errors = 3, retry_seconds = 60, opt_offset_start = 0, opt_offset_end = 0,
      opt_page_start = 0, opt_notify_rate = 4, opt_quiet = True,
      opt_report_read_errors = False, sampling = False, sampling_fraction = 0\<rparr>"

definition example_image :: image where
  "example_image = \<lparr>img_pagesize = 2, img_marginsize = 1, img_data = [1, 2, 3, 4, 5, 6]\<rparr>"

definition fresh_phase1 :: phase1 where
  "fresh_phase1 =
     \<lparr>seen_page_ids = {}, sha1g = Some [], sha1_next = 0, total_bytes = 0, notify_ctr = 0,
      tp = [], xreport = [], notified = [], slept = [], alloc_script = [], alloc_calls = 0\<rparr>"

text \<open>Page \<open>i\<close> of the image, as the iterator returns it.\<close>

definition nth_page :: "image \<Rightarrow> nat \<Rightarrow> sbuf_t" where
  "nth_page img i = page_at img \<lparr>raw_offset = i * img_pagesize img, page_number = i\<rparr>"

text \<open>
  A library whose distribution goes round the range from 0 to \<open>b\<close>, starting with
  \<open>b\<close>: a generator that returns every number of the range again and again;
  a page with a gzip signature at byte 5, at image offset 100; and a stand-in for zlib
  that takes the bytes behind the three signature bytes for the decompressed content.
\<close>

definition round_robin :: "nat random_library" where
  "round_robin =
     \<lparr>default_random_engine = 0,
      uniform_int_distribution = (\<lambda>b i. Some ((i + b) mod Suc b, Suc i))\<rparr>"



text \<open>
  The finite values of the type \<^verbatim>\<open>float\<close> (IEEE binary32): an integer significand below
  \<open>2^24\<close> in magnitude, scaled by a power of two with exponent from \<open>-149\<close> to \<open>104\<close>.
\<close>

definition float_value :: "int \<Rightarrow> int \<Rightarrow> rat" where
  "float_value m e = (if 0 \<le> e then of_int m * 2 ^ nat e else of_int m / 2 ^ nat (- e))"

definition is_binary32 :: "int \<Rightarrow> int \<Rightarrow> bool" where
  "is_binary32 m e \<longleftrightarrow> \<bar>m\<bar> < 2 ^ 24 \<and> - 149 \<le> e \<and> e \<le> 104"

section \<open>Lemmas\<close>

subsection \<open>Decimal rendering is injective\<close>

lemma digit_char_inj:
  "d < 10 \<Longrightarrow> e < 10 \<Longrightarrow> digit_char d = digit_char e \<Longrightarrow> d = e"
  by (simp add: digit_char_def split: if_splits) arith

lemma itos_not_Nil: "itos n \<noteq> []"
  by (subst itos.simps) simp

lemma itos_inj: "itos m = itos n \<Longrightarrow> m = n"
proof (induction m arbitrary: n rule: itos.induct)
  case (1 m)
  show ?case
  proof (cases "m < 10")
    case m_small: True
    show ?thesis
    proof (cases "n < 10")
      case True
      with m_small "1.prems" show ?thesis
        by (simp add: itos.simps [of m] itos.simps [of n] digit_char_inj)
    next
      case False
      with m_small "1.prems" show ?thesis
        by (simp add: itos.simps [of m] itos.simps [of n] itos_not_Nil itos_not_Nil [THEN not_sym])
    qed
  next
    case m_big: False
    show ?thesis
    proof (cases "n < 10")
      case True
      with m_big "1.prems" show ?thesis
        by (simp add: itos.simps [of m] itos.simps [of n] itos_not_Nil itos_not_Nil [THEN not_sym])
    next
      case False
      with m_big "1.prems" have eq: "itos (m div 10) = itos (n div 10)"
        and dg: "digit_char (m mod 10) = digit_char (n mod 10)"
        by (simp_all add: itos.simps [of m] itos.simps [of n])
      from "1.IH" [OF m_big eq] have "m div 10 = n div 10" .
      moreover from dg have "m mod 10 = n mod 10"
        by (rule digit_char_inj [rotated 2]) simp_all
      ultimately show ?thesis
        by (metis div_mult_mod_eq)
    qed
  qed
qed

lemma pos0_str_leaf: "pos0_str (get_pos0 it) = itos (raw_offset it)"
  by (simp add: pos0_str_def get_pos0_def segments_def)

lemma pos0_str_no_path: "path p = [] \<Longrightarrow> pos0_str p = itos (offset p)"
  by (simp add: pos0_str_def segments_def)

subsection \<open>get\_sbuf\<close>

lemma get_sbuf_loop_unfold:
  "get_sbuf_loop c img it rc st =
     (if rc < max_bad_alloc_errors c then
        (case alloc_script st of
           [] \<Rightarrow> (Inr (page_at img it), after_alloc st)
         | Alloc_ok # _ \<Rightarrow> (Inr (page_at img it), after_alloc st)
         | Alloc_bad_alloc # _ \<Rightarrow>
             get_sbuf_loop c img it (rc + 1) (after_bad_alloc c it rc (after_alloc st))
         | Alloc_throws m # _ \<Rightarrow> (Inl (Read_error m), after_alloc st))
      else (Inl (Runtime_error ''too many sbuf allocation errors''), st))"
  by (subst get_sbuf_loop.simps)
     (simp add: sbuf_alloc_def split: list.split alloc_outcome.split)

lemma after_alloc_frame [simp]:
  "seen_page_ids (after_alloc st) = seen_page_ids st"
  "sha1g (after_alloc st) = sha1g st"
  "sha1_next (after_alloc st) = sha1_next st"
  "total_bytes (after_alloc st) = total_bytes st"
  "notify_ctr (after_alloc st) = notify_ctr st"
  "tp (after_alloc st) = tp st"
  "notified (after_alloc st) = notified st"
  "alloc_calls (after_alloc st) = Suc (alloc_calls st)"
  "alloc_script (after_alloc st) = tl (alloc_script st)"
  by (simp_all add: after_alloc_def)

lemma after_bad_alloc_frame [simp]:
  "seen_page_ids (after_bad_alloc c it rc st) = seen_page_ids st"
  "sha1g (after_bad_alloc c it rc st) = sha1g st"
  "sha1_next (after_bad_alloc c it rc st) = sha1_next st"
  "total_bytes (after_bad_alloc c it rc st) = total_bytes st"
  "notify_ctr (after_bad_alloc c it rc st) = notify_ctr st"
  "tp (after_bad_alloc c it rc st) = tp st"
  "notified (after_bad_alloc c it rc st) = notified st"
  "alloc_calls (after_bad_alloc c it rc st) = alloc_calls st"
  "alloc_script (after_bad_alloc c it rc st) = alloc_script st"
  by (simp_all add: after_bad_alloc_def sleep_for_def xmlout_def)

lemma word_less_Suc_measure:
  "(rc :: u_int) < m \<Longrightarrow> unat m - unat (rc + 1) < unat m - unat rc"
  by unat_arith

lemma word_less_Suc_diff:
  "(rc :: u_int) < m \<Longrightarrow> unat m - unat rc = Suc (unat m - unat (rc + 1))"
  by unat_arith

text \<open>Induction along the loop counter.\<close>

lemma get_sbuf_loop_induct [consumes 0, case_names step]:
  assumes "\<And>rc st. (\<And>st'. rc < max_bad_alloc_errors c \<Longrightarrow> P (rc + 1) st') \<Longrightarrow> P rc st"
  shows "P rc st"
proof (induction "unat (max_bad_alloc_errors c) - unat rc" arbitrary: rc st rule: less_induct)
  case less
  show ?case
    by (rule assms) (rule less, rule word_less_Suc_measure)
qed

lemma get_sbuf_loop_cases:
  assumes "get_sbuf_loop c img it rc st = (r, st')"
  obtains
    (exhausted) "\<not> rc < max_bad_alloc_errors c" "r = Inl (Runtime_error ''too many sbuf allocation errors'')" "st' = st"
  | (ok) "rc < max_bad_alloc_errors c" "alloc_script st = [] \<or> hd (alloc_script st) = Alloc_ok"
      "r = Inr (page_at img it)" "st' = after_alloc st"
  | (throws) m where "rc < max_bad_alloc_errors c" "alloc_script st \<noteq> []" "hd (alloc_script st) = Alloc_throws m"
      "r = Inl (Read_error m)" "st' = after_alloc st"
  | (retry) "rc < max_bad_alloc_errors c" "alloc_script st \<noteq> []" "hd (alloc_script st) = Alloc_bad_alloc"
      "get_sbuf_loop c img it (rc + 1) (after_bad_alloc c it rc (after_alloc st)) = (r, st')"
proof (cases "rc < max_bad_alloc_errors c")
  case False
  with assms exhausted show ?thesis
    by (subst (asm) get_sbuf_loop_unfold) simp
next
  case True
  show ?thesis
  proof (cases "alloc_script st")
    case Nil
    with assms True ok show ?thesis
      by (subst (asm) get_sbuf_loop_unfold) simp
  next
    case (Cons o1 rest)
    show ?thesis
    proof (cases o1)
      case Alloc_ok
      with assms True Cons ok show ?thesis
        by (subst (asm) get_sbuf_loop_unfold) simp
    next
      case Alloc_bad_alloc
      with assms True Cons retry show ?thesis
        by (subst (asm) get_sbuf_loop_unfold) simp
    next
      case (Alloc_throws m)
      with assms True Cons throws [of m] show ?thesis
        by (subst (asm) get_sbuf_loop_unfold) simp
    qed
  qed
qed

lemma get_sbuf_loop_rule:
  assumes run: "get_sbuf_loop c img it rc st = (r, st')"
      and init: "Q st"
      and alloc: "\<And>s. Q s \<Longrightarrow> Q (after_alloc s)"
      and bad: "\<And>s k. Q s \<Longrightarrow> Q (after_bad_alloc c it k s)"
  shows "Q st'"
  using run init
proof (induction rc st rule: get_sbuf_loop_induct [where c = c])
  case (step rc st)
  from step.prems(1) show ?case
  proof (cases rule: get_sbuf_loop_cases)
    case exhausted
    with step.prems show ?thesis by simp
  next
    case ok
    with step.prems alloc show ?thesis by simp
  next
    case (throws m)
    with step.prems alloc show ?thesis by simp
  next
    case retry
    from retry(1) retry(4) bad [OF alloc [OF step.prems(2)]] show ?thesis
      by (rule step.IH)
  qed
qed

lemma get_sbuf_frame:
  assumes "get_sbuf c img it st = (r, st')"
  shows "seen_page_ids st' = seen_page_ids st" "sha1g st' = sha1g st"
    "sha1_next st' = sha1_next st" "total_bytes st' = total_bytes st"
    "notify_ctr st' = notify_ctr st" "tp st' = tp st" "notified st' = notified st"
proof -
  note run = assms [unfolded get_sbuf_def]
  show "seen_page_ids st' = seen_page_ids st"
    by (rule get_sbuf_loop_rule [OF run, where Q = "\<lambda>s. seen_page_ids s = seen_page_ids st"]) simp_all
  show "sha1g st' = sha1g st"
    by (rule get_sbuf_loop_rule [OF run, where Q = "\<lambda>s. sha1g s = sha1g st"]) simp_all
  show "sha1_next st' = sha1_next st"
    by (rule get_sbuf_loop_rule [OF run, where Q = "\<lambda>s. sha1_next s = sha1_next st"]) simp_all
  show "total_bytes st' = total_bytes st"
    by (rule get_sbuf_loop_rule [OF run, where Q = "\<lambda>s. total_bytes s = total_bytes st"]) simp_all
  show "notify_ctr st' = notify_ctr st"
    by (rule get_sbuf_loop_rule [OF run, where Q = "\<lambda>s. notify_ctr s = notify_ctr st"]) simp_all
  show "tp st' = tp st"
    by (rule get_sbuf_loop_rule [OF run, where Q = "\<lambda>s. tp s = tp st"]) simp_all
  show "notified st' = notified st"
    by (rule get_sbuf_loop_rule [OF run, where Q = "\<lambda>s. notified s = notified st"]) simp_all
qed

lemma get_sbuf_loop_page:
  "get_sbuf_loop c img it rc st = (Inr sbuf, st') \<Longrightarrow> sbuf = page_at img it"
proof (induction rc st rule: get_sbuf_loop_induct [where c = c])
  case (step rc st)
  from step.prems show ?case
  proof (cases rule: get_sbuf_loop_cases)
    case retry
    then show ?thesis by (intro step.IH)
  qed simp_all
qed

lemma get_sbuf_loop_calls:
  "get_sbuf_loop c img it rc st = (r, st') \<Longrightarrow>
     alloc_calls st \<le> alloc_calls st' \<and>
     alloc_calls st' \<le> alloc_calls st + (unat (max_bad_alloc_errors c) - unat rc)"
proof (induction rc st rule: get_sbuf_loop_induct [where c = c])
  case (step rc st)
  from step.prems show ?case
  proof (cases rule: get_sbuf_loop_cases)
    case exhausted
    then show ?thesis by simp
  next
    case ok
    then show ?thesis using word_less_Suc_diff [of rc "max_bad_alloc_errors c"] by simp
  next
    case (throws m)
    then show ?thesis using word_less_Suc_diff [of rc "max_bad_alloc_errors c"] by simp
  next
    case retry
    from step.IH [OF retry(1) retry(4)] word_less_Suc_diff [OF retry(1)]
    show ?thesis by simp
  qed
qed

lemma get_sbuf_attempts_bound:
  "alloc_calls (snd (get_sbuf c img it st)) \<le> alloc_calls st + unat (max_bad_alloc_errors c)"
  using get_sbuf_loop_calls [of c img it 0 st "fst (get_sbuf c img it st)" "snd (get_sbuf c img it st)"]
  by (simp add: get_sbuf_def)

lemma get_sbuf_clean:
  assumes "max_bad_alloc_errors c \<noteq> 0"
      and "alloc_script st = [] \<or> hd (alloc_script st) = Alloc_ok"
  shows "get_sbuf c img it st = (Inr (page_at img it), after_alloc st)"
proof -
  from assms(1) have "0 < max_bad_alloc_errors c"
    by (simp add: word_greater_zero_iff)
  with assms(2) show ?thesis
    unfolding get_sbuf_def
    by (subst get_sbuf_loop_unfold) (auto split: list.splits alloc_outcome.splits)
qed

lemma get_sbuf_exhausted:
  "max_bad_alloc_errors c = 0 \<Longrightarrow>
     get_sbuf c img it st = (Inl (Runtime_error ''too many sbuf allocation errors''), st)"
  by (simp add: get_sbuf_def get_sbuf_loop.simps)

lemma get_sbuf_loop_fatal_iff:
  "fst (get_sbuf_loop c img it rc st) = Inl (Runtime_error m) \<longleftrightarrow>
     m = ''too many sbuf allocation errors''
     \<and> take (unat (max_bad_alloc_errors c) - unat rc) (alloc_script st)
         = replicate (unat (max_bad_alloc_errors c) - unat rc) Alloc_bad_alloc"
proof (induction rc st rule: get_sbuf_loop_induct [where c = c])
  case (step rc st)
  obtain r st' where run: "get_sbuf_loop c img it rc st = (r, st')"
    by (cases "get_sbuf_loop c img it rc st")
  from run show ?case
  proof (cases rule: get_sbuf_loop_cases)
    case exhausted
    then have "unat (max_bad_alloc_errors c) - unat rc = 0"
      by (simp add: word_less_nat_alt)
    with run exhausted show ?thesis by auto
  next
    case ok
    from word_less_Suc_diff [OF ok(1)] ok(2)
    have "take (unat (max_bad_alloc_errors c) - unat rc) (alloc_script st)
            \<noteq> replicate (unat (max_bad_alloc_errors c) - unat rc) Alloc_bad_alloc"
      by (cases "alloc_script st") auto
    with run ok show ?thesis by simp
  next
    case (throws e)
    from word_less_Suc_diff [OF throws(1)] throws(2,3)
    have "take (unat (max_bad_alloc_errors c) - unat rc) (alloc_script st)
            \<noteq> replicate (unat (max_bad_alloc_errors c) - unat rc) Alloc_bad_alloc"
      by (cases "alloc_script st") auto
    with run throws show ?thesis by simp
  next
    case retry
    from retry(2,3) obtain rest where script: "alloc_script st = Alloc_bad_alloc # rest"
      by (cases "alloc_script st") auto
    from step.IH [OF retry(1), of "after_bad_alloc c it rc (after_alloc st)"] retry(4) run
    show ?thesis
      by (simp add: word_less_Suc_diff [OF retry(1)] script)
  qed
qed

subsection \<open>The loop body\<close>

lemma notify_user_frame [simp]:
  "seen_page_ids (notify_user c it st) = seen_page_ids st"
  "sha1g (notify_user c it st) = sha1g st"
  "sha1_next (notify_user c it st) = sha1_next st"
  "total_bytes (notify_user c it st) = total_bytes st"
  "tp (notify_user c it st) = tp st"
  "alloc_calls (notify_user c it st) = alloc_calls st"
  "alloc_script (notify_user c it st) = alloc_script st"
  by (simp_all add: notify_user_def)

lemma hash_page_frame [simp]:
  "seen_page_ids (hash_page sbuf st) = seen_page_ids st"
  "total_bytes (hash_page sbuf st) = total_bytes st"
  "tp (hash_page sbuf st) = tp st"
  "alloc_calls (hash_page sbuf st) = alloc_calls st"
  "alloc_script (hash_page sbuf st) = alloc_script st"
  by (simp_all add: hash_page_def split: option.split)

lemma schedule_work_frame [simp]:
  "seen_page_ids (schedule_work c it sbuf st) = seen_page_ids st"
  "sha1g (schedule_work c it sbuf st) = sha1g (hash_page sbuf st)"
  "sha1_next (schedule_work c it sbuf st) = sha1_next (hash_page sbuf st)"
  "total_bytes (schedule_work c it sbuf st) = total_bytes st + pagesize sbuf"
  "tp (schedule_work c it sbuf st) = tp st @ [sbuf]"
  "alloc_calls (schedule_work c it sbuf st) = alloc_calls st"
  "alloc_script (schedule_work c it sbuf st) = alloc_script st"
  by (simp_all add: schedule_work_def Let_def)

lemma xmlout_frame [simp]:
  "seen_page_ids (xmlout e st) = seen_page_ids st"
  "sha1g (xmlout e st) = sha1g st"
  "sha1_next (xmlout e st) = sha1_next st"
  "total_bytes (xmlout e st) = total_bytes st"
  "tp (xmlout e st) = tp st"
  "alloc_calls (xmlout e st) = alloc_calls st"
  "alloc_script (xmlout e st) = alloc_script st"
  by (simp_all add: xmlout_def)

lemma page_at_offset [simp]: "offset (pos0 (page_at img it)) = raw_offset it"
  by (simp add: page_at_def get_pos0_def Let_def)

lemma page_at_path [simp]: "path (pos0 (page_at img it)) = []"
  by (simp add: page_at_def get_pos0_def Let_def)

lemma page_at_pos0_str [simp]: "pos0_str (pos0 (page_at img it)) = pos0_str (get_pos0 it)"
  by (simp add: page_at_def Let_def)

text \<open>What one pass through the loop body can do to the state.\<close>

lemma process_page_cases:
  obtains
    (skipped) "process_page c img it st = st"
  | (submitted) st1 where
      "opt_page_start c \<le> page_number it" "opt_offset_start c \<le> raw_offset it"
      "pos0_str (get_pos0 it) \<notin> seen_page_ids st"
      "get_sbuf c img it st = (Inr (page_at img it), st1)"
      "process_page c img it st = schedule_work c it (page_at img it) st1"
  | (failed) e st1 where
      "pos0_str (get_pos0 it) \<notin> seen_page_ids st"
      "get_sbuf c img it st = (Inl e, st1)"
      "process_page c img it st = xmlout (page_exception_entry e it) st1"
proof (cases "opt_page_start c \<le> page_number it \<and> opt_offset_start c \<le> raw_offset it
              \<and> pos0_str (get_pos0 it) \<notin> seen_page_ids st")
  case False
  then have "process_page c img it st = st"
    by (auto simp: process_page_def)
  then show ?thesis by (rule skipped)
next
  case True
  obtain r st1 where g: "get_sbuf c img it st = (r, st1)"
    by (cases "get_sbuf c img it st")
  show ?thesis
  proof (cases r)
    case (Inl e)
    with True g have "process_page c img it st = xmlout (page_exception_entry e it) st1"
      by (simp add: process_page_def)
    with True g Inl show ?thesis by (intro failed [of e st1]) simp_all
  next
    case (Inr sbuf)
    with g have "sbuf = page_at img it"
      by (simp add: get_sbuf_def get_sbuf_loop_page)
    with True g Inr show ?thesis
      by (intro submitted [of st1]) (simp_all add: process_page_def)
  qed
qed

lemma process_page_seen: "seen_page_ids (process_page c img it st) = seen_page_ids st"
  by (cases c img it st rule: process_page_cases) (simp_all add: get_sbuf_frame)

lemma process_page_tp:
  "tp (process_page c img it st) = tp st
   \<or> (tp (process_page c img it st) = tp st @ [page_at img it]
      \<and> opt_page_start c \<le> page_number it \<and> opt_offset_start c \<le> raw_offset it
      \<and> pos0_str (get_pos0 it) \<notin> seen_page_ids st)"
  by (cases c img it st rule: process_page_cases) (simp_all add: get_sbuf_frame)

lemma process_page_exhausted:
  assumes "max_bad_alloc_errors c = 0"
  shows "tp (process_page c img it st) = tp st"
    and "alloc_calls (process_page c img it st) = alloc_calls st"
  using get_sbuf_exhausted [OF assms, of img it st]
  by (cases c img it st rule: process_page_cases; simp)+

lemma hash_page_live:
  assumes "sha1g s = Some fed"
  shows "offset (pos0 sbuf) = sha1_next s \<Longrightarrow>
           sha1g (hash_page sbuf s) = Some (fed @ page_bytes sbuf)
           \<and> sha1_next (hash_page sbuf s) = sha1_next s + pagesize sbuf"
    and "offset (pos0 sbuf) \<noteq> sha1_next s \<Longrightarrow> sha1g (hash_page sbuf s) = None"
  using assms by (simp_all add: hash_page_def page_bytes_def)

lemma hash_page_dead: "sha1g s = None \<Longrightarrow> sha1g (hash_page sbuf s) = None"
  by (simp add: hash_page_def)

lemma hash_page_Some:
  "sha1g (hash_page sbuf s) = Some fed \<Longrightarrow>
     \<exists>fed0. sha1g s = Some fed0 \<and> fed = fed0 @ page_bytes sbuf"
  by (auto simp: hash_page_def page_bytes_def split: option.splits if_splits)

text \<open>The generator after the loop body, against the queue after the loop body.\<close>

lemma process_page_sha1:
  "(tp (process_page c img it s) = tp s \<and> sha1g (process_page c img it s) = sha1g s)
   \<or> (tp (process_page c img it s) = tp s @ [page_at img it]
      \<and> sha1g (process_page c img it s) = sha1g (hash_page (page_at img it) s))"
proof (cases c img it s rule: process_page_cases)
  case skipped
  then show ?thesis by simp
next
  case (submitted st1)
  from get_sbuf_frame [OF submitted(4)]
  have "hash_page (page_at img it) st1 = hash_page (page_at img it) st1" "tp st1 = tp s"
    "sha1g st1 = sha1g s" "sha1_next st1 = sha1_next s" by simp_all
  then have "sha1g (hash_page (page_at img it) st1) = sha1g (hash_page (page_at img it) s)"
    by (simp add: hash_page_def split: option.splits)
  with submitted \<open>tp st1 = tp s\<close> show ?thesis by simp
next
  case (failed e st1)
  with get_sbuf_frame [OF failed(2)] show ?thesis by simp
qed

lemma page_at_raw_offset:
  "raw_offset it = i * img_pagesize img \<Longrightarrow> page_at img it = nth_page img i"
  by (simp add: nth_page_def page_at_def get_pos0_def)

lemma nth_page_full:
  assumes "image_size img = M * img_pagesize img" and "i < M"
  shows "pagesize (nth_page img i) = img_pagesize img"
    and "offset (pos0 (nth_page img i)) = i * img_pagesize img"
    and "path (pos0 (nth_page img i)) = []"
proof -
  from assms(2) have "Suc i \<le> M" by simp
  then have "Suc i * img_pagesize img \<le> M * img_pagesize img"
    by (rule mult_le_mono1)
  then have "img_pagesize img \<le> M * img_pagesize img - i * img_pagesize img"
    by simp
  with assms(1) show "pagesize (nth_page img i) = img_pagesize img"
    by (simp add: nth_page_def page_at_def Let_def image_size_def min_def)
  show "offset (pos0 (nth_page img i)) = i * img_pagesize img"
    and "path (pos0 (nth_page img i)) = []"
    by (simp_all add: nth_page_def)
qed

lemma process_page_clean:
  assumes gates: "opt_page_start c = 0" "opt_offset_start c = 0"
      and budget: "max_bad_alloc_errors c \<noteq> 0"
      and script: "set (alloc_script s) \<subseteq> {Alloc_ok}"
      and seen: "seen_page_ids s = {}"
  shows "tp (process_page c img it s) = tp s @ [page_at img it]"
    and "set (alloc_script (process_page c img it s)) \<subseteq> {Alloc_ok}"
    and "seen_page_ids (process_page c img it s) = {}"
    and "total_bytes (process_page c img it s) = total_bytes s + pagesize (page_at img it)"
proof -
  from script have "alloc_script s = [] \<or> hd (alloc_script s) = Alloc_ok"
    by (cases "alloc_script s") auto
  from get_sbuf_clean [OF budget this]
  have g: "get_sbuf c img it s = (Inr (page_at img it), after_alloc s)" .
  with gates seen
  have p: "process_page c img it s = schedule_work c it (page_at img it) (after_alloc s)"
    by (simp add: process_page_def)
  show "tp (process_page c img it s) = tp s @ [page_at img it]"
    and "seen_page_ids (process_page c img it s) = {}"
    and "total_bytes (process_page c img it s) = total_bytes s + pagesize (page_at img it)"
    using seen by (simp_all add: p)
  from script have "set (tl (alloc_script s)) \<subseteq> {Alloc_ok}"
    by (cases "alloc_script s") auto
  then show "set (alloc_script (process_page c img it s)) \<subseteq> {Alloc_ok}"
    by (simp add: p)
qed

subsection \<open>An invariant rule for the dispatch loop\<close>

lemma dispatch_loop_rule:
  assumes run: "dispatch_loop c img si it st = Some st'"
      and init: "I si it st"
      and step: "\<And>si it st it1.
                   \<lbrakk>I si it st; candidate c img si it = Some it1; \<not> past_offset_end c it1\<rbrakk>
                   \<Longrightarrow> I (if sampling c then tl si else si)
                         (if sampling c then it1 else it_next img it1)
                         (process_page c img it1 st)"
  shows "\<exists>si' it'. I si' it' st'"
proof -
  let ?P = "\<lambda>c0 img0 si it st y.
              c0 = c \<longrightarrow> img0 = img \<longrightarrow> I si it st \<longrightarrow> (\<exists>si' it'. I si' it' y)"
  have "?P c img si it st st'"
  proof (rule dispatch_loop.raw_induct [where P = ?P, OF _ run])
    fix loop c1 img1 si it st y
    assume IH: "\<And>c0 img0 si it st y. loop c0 img0 si it st = Some y \<Longrightarrow> ?P c0 img0 si it st y"
      and unfolded:
        "(case candidate c1 img1 si it of
            None \<Rightarrow> Some st
          | Some it1 \<Rightarrow>
              if past_offset_end c1 it1 then Some st
              else loop c1 img1 (if sampling c1 then tl si else si)
                     (if sampling c1 then it1 else it_next img1 it1)
                     (process_page c1 img1 it1 st)) = Some y"
    show "?P c1 img1 si it st y"
    proof (intro impI)
      assume eq: "c1 = c" "img1 = img" and inv: "I si it st"
      note body = unfolded [unfolded eq]
      show "\<exists>si' it'. I si' it' y"
      proof (cases "candidate c img si it")
        case None
        with body have "y = st" by simp
        with inv show ?thesis by blast
      next
        case (Some it1)
        show ?thesis
        proof (cases "past_offset_end c it1")
          case True
          with body Some have "y = st" by simp
          with inv show ?thesis by blast
        next
          case False
          with body Some
          have rec: "loop c img (if sampling c then tl si else si)
                       (if sampling c then it1 else it_next img it1)
                       (process_page c img it1 st) = Some y"
            by simp
          from IH [OF rec] step [OF inv Some False] show ?thesis by blast
        qed
      qed
    qed
  qed
  with init show ?thesis by blast
qed

lemma candidate_sampling:
  "sampling c \<Longrightarrow> candidate c img si it = Some it1 \<Longrightarrow>
     \<exists>block rest. si = block # rest \<and> it1 = seek_block img block it"
  by (auto simp: candidate_def split: list.splits)

lemma candidate_sequential:
  "\<not> sampling c \<Longrightarrow> candidate c img si it = Some it1 \<Longrightarrow> it1 = it \<and> \<not> it_at_end img it"
  by (auto simp: candidate_def split: if_splits)

lemma sorted_wrt_less_distinct: "sorted_wrt (<) (xs :: nat list) \<Longrightarrow> distinct xs"
  by (induction xs) auto

text \<open>
  The dispatch loop ends: over a plan it takes one block per round, and over the image it
  moves on by one page of positive size per round.
\<close>

lemma dispatch_loop_terminates:
  assumes "sampling c \<or> 0 < img_pagesize img"
  shows "\<exists>st'. dispatch_loop c img si it st = Some st'"
proof (induction "if sampling c then length si else image_size img - raw_offset it"
        arbitrary: si it st rule: less_induct)
  case less
  show ?case
  proof (cases "candidate c img si it")
    case None
    then show ?thesis
      by (subst dispatch_loop.simps) simp
  next
    case (Some it1)
    show ?thesis
    proof (cases "past_offset_end c it1")
      case True
      with Some show ?thesis
        by (subst dispatch_loop.simps) simp
    next
      case False
      let ?si = "if sampling c then tl si else si"
      let ?it = "if sampling c then it1 else it_next img it1"
      have "(if sampling c then length ?si else image_size img - raw_offset ?it)
              < (if sampling c then length si else image_size img - raw_offset it)"
      proof (cases "sampling c")
        case True
        with candidate_sampling [OF True Some] show ?thesis by auto
      next
        case False
        with assms have "0 < img_pagesize img" by simp
        with False candidate_sequential [OF False Some] show ?thesis
          by (auto simp: it_at_end_def it_next_def)
      qed
      from less.hyps [OF this, of "process_page c img it1 st"]
      obtain st' where "dispatch_loop c img ?si ?it (process_page c img it1 st) = Some st'"
        by blast
      with Some False show ?thesis
        by (subst dispatch_loop.simps) simp
    qed
  qed
qed

text \<open>The pages of one run are pushed in strictly ascending order of their offsets.\<close>

lemma dispatch_loop_ascending:
  assumes run: "dispatch_loop c img si it st = Some st'"
      and ps: "0 < img_pagesize img"
      and plan: "sorted_wrt (<) si"
      and empty: "tp st = []"
  shows "sorted_wrt (<) (map (offset \<circ> pos0) (tp st'))
       \<and> (\<forall>u\<in>set (tp st'). path (pos0 u) = [] \<and> pos0_str (pos0 u) \<notin> seen_page_ids st)
       \<and> seen_page_ids st' = seen_page_ids st"
proof -
  let ?ahead = "\<lambda>(si :: blocklist_t) (it :: iterator) (x :: nat).
                  if sampling c then \<forall>b\<in>set si. x < b * img_pagesize img else x < raw_offset it"
  let ?I = "\<lambda>(si :: blocklist_t) (it :: iterator) (s :: phase1).
              sorted_wrt (<) si
            \<and> sorted_wrt (<) (map (offset \<circ> pos0) (tp s))
            \<and> (\<forall>u\<in>set (tp s). path (pos0 u) = [] \<and> pos0_str (pos0 u) \<notin> seen_page_ids st
                               \<and> ?ahead si it (offset (pos0 u)))
            \<and> seen_page_ids s = seen_page_ids st"
  have "\<exists>si' it'. ?I si' it' st'"
  proof (rule dispatch_loop_rule [OF run, where I = ?I])
    from plan empty show "?I si it st" by simp
  next
    fix si it it1 and s :: phase1
    assume inv: "?I si it s" and cand: "candidate c img si it = Some it1"
    let ?si' = "if sampling c then tl si else si"
    let ?it' = "if sampling c then it1 else it_next img it1"
    let ?s' = "process_page c img it1 s"
    have seen: "seen_page_ids ?s' = seen_page_ids st"
      using inv by (simp add: process_page_seen)
    have plan': "sorted_wrt (<) ?si'"
      using inv by (cases si) auto
    have old_ahead: "?ahead ?si' ?it' (offset (pos0 u))" and old_below: "offset (pos0 u) < raw_offset it1"
      if "u \<in> set (tp s)" for u
    proof -
      from inv that have a: "?ahead si it (offset (pos0 u))" by blast
      show "?ahead ?si' ?it' (offset (pos0 u))"
      proof (cases "sampling c")
        case True
        with candidate_sampling [OF True cand] a show ?thesis by auto
      next
        case False
        with candidate_sequential [OF False cand] a show ?thesis
          by (simp add: it_next_def)
      qed
      show "offset (pos0 u) < raw_offset it1"
      proof (cases "sampling c")
        case True
        with candidate_sampling [OF True cand] a show ?thesis
          by (auto simp: seek_block_def)
      next
        case False
        with candidate_sequential [OF False cand] a show ?thesis by simp
      qed
    qed
    have new_ahead: "?ahead ?si' ?it' (raw_offset it1)"
    proof (cases "sampling c")
      case True
      from candidate_sampling [OF True cand] obtain block rest
        where si: "si = block # rest" and it1: "it1 = seek_block img block it" by blast
      from inv si have "\<forall>b\<in>set rest. block < b" by simp
      with ps have "\<forall>b\<in>set rest. block * img_pagesize img < b * img_pagesize img" by simp
      with True si it1 show ?thesis by (simp add: seek_block_def)
    next
      case False
      with ps show ?thesis by (simp add: it_next_def)
    qed
    from old_ahead have old_all: "\<forall>u\<in>set (tp s). ?ahead ?si' ?it' (offset (pos0 u))"
      by blast
    from process_page_tp [of c img it1 s]
    have "sorted_wrt (<) (map (offset \<circ> pos0) (tp ?s'))
        \<and> (\<forall>u\<in>set (tp ?s'). path (pos0 u) = [] \<and> pos0_str (pos0 u) \<notin> seen_page_ids st
                               \<and> ?ahead ?si' ?it' (offset (pos0 u)))"
    proof
      assume same: "tp ?s' = tp s"
      from inv old_all show ?thesis
        unfolding same by blast
    next
      assume a: "tp ?s' = tp s @ [page_at img it1]
        \<and> opt_page_start c \<le> page_number it1 \<and> opt_offset_start c \<le> raw_offset it1
        \<and> pos0_str (get_pos0 it1) \<notin> seen_page_ids s"
      then have more: "tp ?s' = tp s @ [page_at img it1]" by blast
      from inv old_below
      have "sorted_wrt (<) (map (offset \<circ> pos0) (tp s @ [page_at img it1]))"
        by (simp add: sorted_wrt_append)
      moreover from inv a
      have "\<forall>u\<in>set (tp s @ [page_at img it1]).
              path (pos0 u) = [] \<and> pos0_str (pos0 u) \<notin> seen_page_ids st"
        by auto
      moreover from old_all new_ahead
      have "\<forall>u\<in>set (tp s @ [page_at img it1]). ?ahead ?si' ?it' (offset (pos0 u))"
        by (cases "sampling c") simp_all
      ultimately show ?thesis
        unfolding more by blast
    qed
    with plan' seen show "?I ?si' ?it' ?s'"
      by blast
  qed
  then show ?thesis by blast
qed

lemma distinct_leaf_strings:
  assumes "sorted_wrt (<) (map (offset \<circ> pos0) pages)"
      and "\<forall>u\<in>set pages. path (pos0 u) = []"
  shows "distinct (map (pos0_str \<circ> pos0) pages)"
proof -
  from assms(1) have "distinct (map (offset \<circ> pos0) pages)"
    by (rule sorted_wrt_less_distinct)
  then have "distinct (map (itos \<circ> (offset \<circ> pos0)) pages)"
    unfolding map_map [symmetric] by (simp add: distinct_map inj_on_def itos_inj)
  moreover from assms(2)
  have "map (pos0_str \<circ> pos0) pages = map (itos \<circ> (offset \<circ> pos0)) pages"
    by (simp add: pos0_str_no_path)
  ultimately show ?thesis by (simp only:)
qed

text \<open>A sequential run without gates and without failures, from page \<open>k\<close> on.\<close>

lemma sequential_run:
  assumes mode: "\<not> sampling c" "opt_offset_end c = 0"
      and gates: "opt_page_start c = 0" "opt_offset_start c = 0"
      and budget: "max_bad_alloc_errors c \<noteq> 0"
      and ps: "0 < img_pagesize img"
      and size: "image_size img = M * img_pagesize img"
  shows "\<lbrakk>raw_offset it = k * img_pagesize img; k \<le> M;
          set (alloc_script s) \<subseteq> {Alloc_ok}; seen_page_ids s = {}\<rbrakk>
         \<Longrightarrow> \<exists>s'. dispatch_loop c img si it s = Some s'
                \<and> tp s' = tp s @ map (nth_page img) [k..<M]
                \<and> total_bytes s' = total_bytes s + (M - k) * img_pagesize img"
proof (induction "M - k" arbitrary: k it s)
  case 0
  then have "k = M" by simp
  with "0.prems" size mode have "candidate c img si it = None"
    by (simp add: candidate_def it_at_end_def)
  then have "dispatch_loop c img si it s = Some s"
    by (subst dispatch_loop.simps) simp
  with \<open>k = M\<close> show ?case by simp
next
  case (Suc d)
  then have k: "k < M" by simp
  with ps have "k * img_pagesize img < M * img_pagesize img" by simp
  with Suc.prems size mode have cand: "candidate c img si it = Some it"
    by (simp add: candidate_def it_at_end_def)
  let ?s1 = "process_page c img it s"
  note pp = process_page_clean [OF gates budget Suc.prems(3) Suc.prems(4), of img it]
  have unfold: "dispatch_loop c img si it s = dispatch_loop c img si (it_next img it) ?s1"
    using cand mode by (subst dispatch_loop.simps) (simp add: past_offset_end_def)
  have "raw_offset (it_next img it) = Suc k * img_pagesize img"
    using Suc.prems(1) by (simp add: it_next_def)
  moreover from Suc.hyps(2) have "d = M - Suc k" by simp
  moreover from k have "Suc k \<le> M" by simp
  ultimately obtain s' where
    run: "dispatch_loop c img si (it_next img it) ?s1 = Some s'"
    and tp': "tp s' = tp ?s1 @ map (nth_page img) [Suc k..<M]"
    and tb': "total_bytes s' = total_bytes ?s1 + (M - Suc k) * img_pagesize img"
    using Suc.hyps(1) [of "Suc k" "it_next img it" ?s1] pp(2) pp(3) by blast
  from page_at_raw_offset [OF Suc.prems(1)] have page: "page_at img it = nth_page img k" .
  from k have upt: "[k..<M] = k # [Suc k..<M]"
    by (rule upt_conv_Cons)
  have "tp s' = tp s @ map (nth_page img) [k..<M]"
    by (simp add: tp' pp(1) page upt)
  moreover have "total_bytes s' = total_bytes s + (M - k) * img_pagesize img"
  proof -
    from k have "M - k = Suc (M - Suc k)" by simp
    then show ?thesis
      by (simp add: tb' pp(4) page nth_page_full(1) [OF size k])
  qed
  ultimately show ?case
    using unfold run by simp
qed

text \<open>
  A sequential run without page gates and without failures when \<open>opt_offset_end\<close> is
  set, from page \<open>k\<close> on: the pages pushed are those that start below
  \<open>opt_offset_end\<close>.
\<close>

lemma sequential_run_until:
  assumes mode: "\<not> sampling c" "opt_offset_end c \<noteq> 0"
      and gates: "opt_page_start c = 0" "opt_offset_start c = 0"
      and budget: "max_bad_alloc_errors c \<noteq> 0"
      and ps: "0 < img_pagesize img"
      and size: "image_size img = M * img_pagesize img"
  shows "\<lbrakk>raw_offset it = k * img_pagesize img; k \<le> M;
          set (alloc_script s) \<subseteq> {Alloc_ok}; seen_page_ids s = {}\<rbrakk>
         \<Longrightarrow> \<exists>s'. dispatch_loop c img si it s = Some s'
                \<and> tp s' = tp s @ map (nth_page img)
                                   (filter (\<lambda>i. i * img_pagesize img < opt_offset_end c) [k..<M])"
proof (induction "M - k" arbitrary: k it s)
  case 0
  then have "k = M" by simp
  with "0.prems" size mode have "candidate c img si it = None"
    by (simp add: candidate_def it_at_end_def)
  then have "dispatch_loop c img si it s = Some s"
    by (subst dispatch_loop.simps) simp
  with \<open>k = M\<close> show ?case by simp
next
  case (Suc d)
  then have k: "k < M" by simp
  with ps have "k * img_pagesize img < M * img_pagesize img" by simp
  with Suc.prems size mode have cand: "candidate c img si it = Some it"
    by (simp add: candidate_def it_at_end_def)
  from k have upt: "[k..<M] = k # [Suc k..<M]"
    by (rule upt_conv_Cons)
  show ?case
  proof (cases "opt_offset_end c \<le> k * img_pagesize img")
    case True
    with cand mode Suc.prems(1) have "dispatch_loop c img si it s = Some s"
      by (subst dispatch_loop.simps) (simp add: past_offset_end_def)
    moreover have "filter (\<lambda>i. i * img_pagesize img < opt_offset_end c) [k..<M] = []"
    proof -
      have "\<not> i * img_pagesize img < opt_offset_end c" if "i \<in> set [k..<M]" for i
      proof -
        from that have "k \<le> i" by simp
        then have "k * img_pagesize img \<le> i * img_pagesize img"
          by (rule mult_le_mono1)
        with True have "opt_offset_end c \<le> i * img_pagesize img"
          by (rule le_trans)
        then show ?thesis by (simp only: not_less)
      qed
      then show ?thesis by (simp only: filter_empty_conv) blast
    qed
    ultimately show ?thesis by simp
  next
    case False
    then have below: "k * img_pagesize img < opt_offset_end c" by simp
    let ?s1 = "process_page c img it s"
    note pp = process_page_clean [OF gates budget Suc.prems(3) Suc.prems(4), of img it]
    have unfold: "dispatch_loop c img si it s = dispatch_loop c img si (it_next img it) ?s1"
      using cand mode below Suc.prems(1)
      by (subst dispatch_loop.simps) (simp add: past_offset_end_def)
    have "raw_offset (it_next img it) = Suc k * img_pagesize img"
      using Suc.prems(1) by (simp add: it_next_def)
    moreover from Suc.hyps(2) have "d = M - Suc k" by simp
    moreover from k have "Suc k \<le> M" by simp
    ultimately obtain s' where
      run: "dispatch_loop c img si (it_next img it) ?s1 = Some s'"
      and tp': "tp s' = tp ?s1 @ map (nth_page img)
                  (filter (\<lambda>i. i * img_pagesize img < opt_offset_end c) [Suc k..<M])"
      using Suc.hyps(1) [of "Suc k" "it_next img it" ?s1] pp(2) pp(3) by blast
    from page_at_raw_offset [OF Suc.prems(1)] have page: "page_at img it = nth_page img k" .
    have "tp s' = tp s @ map (nth_page img)
                    (filter (\<lambda>i. i * img_pagesize img < opt_offset_end c) [k..<M])"
      using below by (simp add: tp' pp(1) page upt)
    then show ?thesis
      using unfold run by simp
  qed
qed

subsection \<open>The arithmetic of the type float\<close>

text \<open>Floors and ceilings of fractions of numerals, for the evaluation of closed terms.\<close>

lemma floor_rat_numeral: "\<lfloor>numeral a / numeral b :: rat\<rfloor> = numeral a div numeral b"
  using floor_divide_of_int_eq [of "numeral a" "numeral b", where ?'a = rat] by simp

lemma ceiling_rat_numeral:
  "\<lceil>numeral a / numeral b :: rat\<rceil> = - (- numeral a div numeral b)"
  using ceiling_divide_eq_div [of "numeral a" "numeral b", where ?'a = rat] by simp

lemmas float_simps =
  floor_rat_numeral ceiling_rat_numeral round_binary32_def ilog2_def flog2.simps
  round_half_even_def float_of_nat_def float_mult_def Let_def

text \<open>
  The float nearest to one tenth is \<open>13421773 / 2^27\<close>, a little above it; the float
  products of 10 and of 1000 with it are 1 and 100, where the exact products are a little
  above, and the float product of 412 with the float nearest to 0.19 is
  \<open>2565079 / 2^15\<close>, between 78 and 79.
\<close>

lemma float_product_examples:
  "round_binary32 (1 / 10) = 13421773 / 134217728"
  "float_mult (float_of_nat 10) (round_binary32 (1 / 10)) = 1"
  "float_mult (float_of_nat 1000) (round_binary32 (1 / 10)) = 100"
  "float_mult (float_of_nat 412) (round_binary32 (19 / 100)) = 2565079 / 32768"
  by (simp_all add: float_simps)

text \<open>
  The logarithms are what their names say, rounding to the nearest integer is off by at
  most one half, and rounding to float is off by at most \<open>2^-24\<close> of the value, or by
  \<open>2^-150\<close> among the subnormal numbers.
\<close>

lemma flog2_bounds:
  "0 < n \<Longrightarrow> 2 ^ flog2 n \<le> n \<and> n < 2 ^ Suc (flog2 n)"
proof (induction n rule: flog2.induct)
  case (1 n)
  show ?case
  proof (cases "n < 2")
    case True
    with "1.prems" have "n = 1" by simp
    then show ?thesis by (simp add: flog2.simps)
  next
    case False
    then have pos: "0 < n div 2" by simp
    from "1.IH" [OF False pos] have lo: "2 ^ flog2 (n div 2) \<le> n div 2"
      and hi: "n div 2 < 2 ^ Suc (flog2 (n div 2))" by simp_all
    from False have eq: "flog2 n = Suc (flog2 (n div 2))"
      by (subst flog2.simps) simp
    have "2 * (n div 2) \<le> n" by simp
    with lo have "2 ^ flog2 n \<le> n" unfolding eq by simp
    moreover have "n < 2 * (n div 2) + 2" by arith
    with hi have "n < 2 ^ Suc (flog2 n)" unfolding eq by simp
    ultimately show ?thesis by simp
  qed
qed

lemma ilog2_bounds:
  assumes "0 < x"
  shows "2 powi ilog2 x \<le> x" and "x < 2 powi (ilog2 x + 1)"
proof -
  have "2 powi ilog2 x \<le> x \<and> x < 2 powi (ilog2 x + 1)"
  proof (cases "1 \<le> x")
    case True
    define n where "n = nat \<lfloor>x\<rfloor>"
    from True have "1 \<le> \<lfloor>x\<rfloor>" by simp
    then have n: "0 < n" "of_nat n = (of_int \<lfloor>x\<rfloor> :: rat)"
      by (simp_all add: n_def)
    from flog2_bounds [OF n(1)] have lo: "2 ^ flog2 n \<le> n" and hi: "n < 2 ^ Suc (flog2 n)"
      by simp_all
    from True have k: "ilog2 x = int (flog2 n)"
      by (simp add: ilog2_def n_def)
    from lo have "(of_nat (2 ^ flog2 n) :: rat) \<le> of_nat n"
      by (simp only: of_nat_le_iff)
    then have "(2::rat) ^ flog2 n \<le> of_int \<lfloor>x\<rfloor>"
      by (simp add: n(2))
    also have "\<dots> \<le> x" by (rule of_int_floor_le)
    finally have a: "2 powi ilog2 x \<le> x"
      by (simp only: k power_int_of_nat)
    from hi have "Suc n \<le> 2 ^ Suc (flog2 n)" by simp
    then have "(of_nat (Suc n) :: rat) \<le> of_nat (2 ^ Suc (flog2 n))"
      by (simp only: of_nat_le_iff)
    then have "of_int \<lfloor>x\<rfloor> + 1 \<le> (2::rat) ^ Suc (flog2 n)"
      using n(2) by simp
    moreover have "x < of_int \<lfloor>x\<rfloor> + 1" using floor_correct [of x] by simp
    ultimately have "x < 2 ^ Suc (flog2 n)" by simp
    moreover have "(2::rat) powi (ilog2 x + 1) = 2 ^ Suc (flog2 n)"
    proof -
      have "ilog2 x + 1 = int (Suc (flog2 n))" by (simp add: k)
      then show ?thesis by (simp only: power_int_of_nat)
    qed
    ultimately show ?thesis using a by simp
  next
    case False
    define y where "y = 1 / x"
    from assms False have y: "1 < y" by (simp add: y_def)
    define n where "n = nat \<lceil>y\<rceil>"
    from y have "(of_int 1 :: rat) < y" by simp
    then have c1: "1 < \<lceil>y\<rceil>" by (simp only: less_ceiling_iff)
    then have n2: "2 \<le> n" unfolding n_def by linarith
    from c1 have nn: "(of_nat n :: rat) = of_int \<lceil>y\<rceil>"
      by (simp add: n_def)
    define j where "j = flog2 (n - 1)"
    from n2 have "0 < n - 1" by simp
    from flog2_bounds [OF this] have lo: "2 ^ j \<le> n - 1" and hi: "n - 1 < 2 ^ Suc j"
      by (simp_all add: j_def)
    from False n2 have k: "ilog2 x = - int (Suc j)"
      by (simp add: ilog2_def Let_def y_def [symmetric] n_def [symmetric] j_def)
    from hi n2 have "n \<le> 2 ^ Suc j" by simp
    then have "(of_nat n :: rat) \<le> of_nat (2 ^ Suc j)"
      by (simp only: of_nat_le_iff)
    then have "of_int \<lceil>y\<rceil> \<le> (2::rat) ^ Suc j"
      by (simp add: nn)
    with le_of_int_ceiling [of y] have yle: "y \<le> 2 ^ Suc j"
      by (rule order_trans)
    from lo n2 have "2 ^ j + 1 \<le> n" by simp
    then have "(of_nat (2 ^ j + 1) :: rat) \<le> of_nat n"
      by (simp only: of_nat_le_iff)
    then have "(2::rat) ^ j + 1 \<le> of_int \<lceil>y\<rceil>"
      by (simp add: nn)
    moreover have "of_int \<lceil>y\<rceil> - 1 < y" by (rule ceiling_correct [THEN conjunct1])
    ultimately have ylt: "2 ^ j < y" by simp
    have "(2::rat) powi ilog2 x = 1 / 2 ^ Suc j"
      unfolding k by (simp only: power_int_minus_divide power_int_of_nat)
    moreover from yle assms have "1 / 2 ^ Suc j \<le> x"
      by (simp add: y_def field_simps)
    moreover have "ilog2 x + 1 = - int j" by (simp add: k)
    then have "(2::rat) powi (ilog2 x + 1) = 1 / 2 ^ j"
      by (simp only: power_int_minus_divide power_int_of_nat)
    moreover from ylt assms have "x < 1 / 2 ^ j"
      by (simp add: y_def field_simps)
    ultimately show ?thesis by simp
  qed
  then show "2 powi ilog2 x \<le> x" and "x < 2 powi (ilog2 x + 1)" by simp_all
qed

lemma round_half_even_error: "\<bar>of_int (round_half_even y) - y\<bar> \<le> 1 / 2"
proof -
  have "of_int \<lfloor>y\<rfloor> \<le> y" "y < of_int \<lfloor>y\<rfloor> + 1"
    using floor_correct [of y] by simp_all
  then show ?thesis
    by (auto simp: round_half_even_def Let_def abs_le_iff)
qed

lemma round_half_even_nonneg: "0 \<le> y \<Longrightarrow> 0 \<le> round_half_even y"
proof -
  assume "0 \<le> y"
  with round_half_even_error [of y] have "(of_int (- 1) :: rat) < of_int (round_half_even y)"
    by (simp only: abs_le_iff of_int_minus of_int_1) linarith
  then have "- 1 < round_half_even y"
    by (simp only: of_int_less_iff)
  then show ?thesis by simp
qed


lemma round_half_even_ge: "of_int n + 1 / 2 < y \<Longrightarrow> n + 1 \<le> round_half_even y"
proof -
  assume "of_int n + 1 / 2 < y"
  with round_half_even_error [of y] have "(of_int n :: rat) < of_int (round_half_even y)"
    by (simp only: abs_le_iff) linarith
  then have "n < round_half_even y"
    by (simp only: of_int_less_iff)
  then show ?thesis by simp
qed

lemma round_half_even_le: "y < of_int n + 1 / 2 \<Longrightarrow> round_half_even y \<le> n"
proof -
  assume "y < of_int n + 1 / 2"
  with round_half_even_error [of y] have "(of_int (round_half_even y) :: rat) < of_int (n + 1)"
    by (simp only: abs_le_iff of_int_add of_int_1) linarith
  then have "round_half_even y < n + 1"
    by (simp only: of_int_less_iff)
  then show ?thesis by simp
qed

lemma round_binary32_error:
  assumes "0 \<le> x"
  shows "\<bar>round_binary32 x - x\<bar> \<le> x / 2 ^ 24 + 1 / 2 ^ 150"
proof (cases "x = 0")
  case True
  then show ?thesis by (simp add: round_binary32_def)
next
  case False
  with assms have pos: "0 < x" by simp
  define e where "e = max (- 149) (ilog2 x - 23)"
  define p :: rat where "p = 2 powi e"
  have p0: "0 < p" by (simp add: p_def zero_less_power_int)
  define y where "y = x / p"
  have r: "round_binary32 x = of_int (round_half_even y) * p"
    using pos by (simp add: round_binary32_def Let_def e_def p_def y_def)
  have x: "x = y * p" using p0 by (simp add: y_def)
  have "round_binary32 x - x = (of_int (round_half_even y) - y) * p"
    unfolding r by (subst x) (simp add: algebra_simps)
  then have "\<bar>round_binary32 x - x\<bar> = \<bar>of_int (round_half_even y) - y\<bar> * p"
    using p0 by (simp add: abs_mult)
  also have "\<dots> \<le> 1 / 2 * p"
    using round_half_even_error [of y] p0 by (intro mult_right_mono) simp_all
  finally have err: "\<bar>round_binary32 x - x\<bar> \<le> p / 2" by simp
  have "p / 2 \<le> x / 2 ^ 24 + 1 / 2 ^ 150"
  proof (cases "ilog2 x - 23 \<le> - 149")
    case True
    then have "e = - 149" by (simp add: e_def)
    then have "p = 1 / 2 ^ 149" by (simp add: p_def power_int_minus_divide)
    with pos show ?thesis by simp
  next
    case False
    then have "e = ilog2 x - 23" by (simp add: e_def)
    then have "p = 2 powi ilog2 x / 2 ^ 23" by (simp add: p_def power_int_diff)
    with ilog2_bounds(1) [OF pos] have "p \<le> x / 2 ^ 23" by (simp add: divide_right_mono)
    with pos show ?thesis by simp
  qed
  with err show ?thesis by simp
qed

lemma round_binary32_near:
  assumes "0 \<le> x"
  shows "round_binary32 x \<le> x + x / 2 ^ 24 + 1 / 2 ^ 150"
    and "x - x / 2 ^ 24 - 1 / 2 ^ 150 \<le> round_binary32 x"
  using round_binary32_error [OF assms] unfolding abs_le_iff by linarith+

lemma round_binary32_nonneg: "0 \<le> x \<Longrightarrow> 0 \<le> round_binary32 x"
  by (simp add: round_binary32_def Let_def round_half_even_nonneg zero_less_power_int less_imp_le)

lemma round_binary32_nonpos: "x \<le> 0 \<Longrightarrow> round_binary32 x \<le> 0"
proof (cases "x = 0")
  case True
  then show ?thesis by (simp add: round_binary32_def)
next
  case False
  assume "x \<le> 0"
  with False have neg: "x < 0" by simp
  define e where "e = max (- 149) (ilog2 \<bar>x\<bar> - 23)"
  have "0 \<le> round_half_even (\<bar>x\<bar> / 2 powi e)"
    by (intro round_half_even_nonneg divide_nonneg_pos zero_less_power_int) simp_all
  then have "(0::rat) \<le> of_int (round_half_even (\<bar>x\<bar> / 2 powi e)) * 2 powi e"
    by (intro mult_nonneg_nonneg) (simp_all add: zero_less_power_int less_imp_le)
  moreover from neg have "round_binary32 x = - (of_int (round_half_even (\<bar>x\<bar> / 2 powi e)) * 2 powi e)"
    by (simp add: round_binary32_def Let_def e_def)
  ultimately show ?thesis by simp
qed

lemma ilog2_eq:
  assumes lo: "2 powi k \<le> x" and hi: "x < 2 powi (k + 1)"
  shows "ilog2 x = k"
proof -
  have "(0::rat) < 2 powi k" by (rule zero_less_power_int) simp
  then have pos: "0 < x" using lo by (rule less_le_trans)
  note b = ilog2_bounds [OF pos]
  have "ilog2 x < k + 1"
  proof (rule ccontr)
    assume "\<not> ilog2 x < k + 1"
    then have "k + 1 \<le> ilog2 x" by simp
    then have "(2::rat) powi (k + 1) \<le> 2 powi ilog2 x"
      by (rule power_int_increasing) simp
    with b(1) hi show False by simp
  qed
  moreover have "k < ilog2 x + 1"
  proof (rule ccontr)
    assume "\<not> k < ilog2 x + 1"
    then have "ilog2 x + 1 \<le> k" by simp
    then have "(2::rat) powi (ilog2 x + 1) \<le> 2 powi k"
      by (rule power_int_increasing) simp
    with b(2) lo show False by simp
  qed
  ultimately show ?thesis by simp
qed

text \<open>Between one eighth and one quarter the values of the type are the multiples of \<open>2^-26\<close>.\<close>

lemma round_binary32_eighth:
  assumes "1 / 8 \<le> d" and "d < 1 / 4"
  shows "round_binary32 d = of_int (round_half_even (d * 2 ^ 26)) / 2 ^ 26"
proof -
  from assms have "2 powi (- 3) \<le> d" "d < 2 powi (- 3 + 1)"
    by (simp_all add: power_int_minus_divide)
  then have "ilog2 d = - 3" by (rule ilog2_eq)
  moreover from assms have "0 < d" by simp
  ultimately show ?thesis
    by (simp add: round_binary32_def Let_def power_int_minus_divide)
qed

lemma guard_rejects:
  assumes "26843545 / 134217728 < d"
  shows "double_0_2 < round_binary32 d"
proof (cases "d < 1 / 4")
  case True
  from assms have "1 / 8 \<le> d" by simp
  from round_binary32_eighth [OF this True]
  have r: "round_binary32 d = of_int (round_half_even (d * 2 ^ 26)) / 2 ^ 26" .
  from assms have "of_int 13421772 + 1 / 2 < d * 2 ^ 26" by simp
  then have "13421772 + 1 \<le> round_half_even (d * 2 ^ 26)"
    by (rule round_half_even_ge)
  then have "(of_int 13421773 :: rat) \<le> of_int (round_half_even (d * 2 ^ 26))"
    by (simp only: of_int_le_iff)
  then have "13421773 / 2 ^ 26 \<le> round_binary32 d"
    unfolding r by (simp add: divide_right_mono)
  then show ?thesis by (simp add: double_0_2_def)
next
  case False
  then have d: "1 / 4 \<le> d" by simp
  then have "0 \<le> d" by simp
  from round_binary32_near(2) [OF this] d show ?thesis by (simp add: double_0_2_def)
qed

lemma guard_accepts:
  assumes "d \<le> 26843545 / 134217728"
  shows "round_binary32 d \<le> double_0_2"
proof -
  consider "d \<le> 0" | "0 < d" "d < 1 / 8" | "1 / 8 \<le> d" "d < 26843545 / 134217728"
    | "d = 26843545 / 134217728"
    using assms by linarith
  then show ?thesis
  proof cases
    case 1
    then have "round_binary32 d \<le> 0" by (rule round_binary32_nonpos)
    then show ?thesis by (simp add: double_0_2_def)
  next
    case 2
    then have "0 \<le> d" by simp
    from round_binary32_near(1) [OF this] 2 show ?thesis by (simp add: double_0_2_def)
  next
    case 3
    then have "d < 1 / 4" by simp
    from round_binary32_eighth [OF 3(1) this]
    have r: "round_binary32 d = of_int (round_half_even (d * 2 ^ 26)) / 2 ^ 26" .
    from 3(2) have "d * 2 ^ 26 < of_int 13421772 + 1 / 2" by simp
    then have "round_half_even (d * 2 ^ 26) \<le> 13421772"
      by (rule round_half_even_le)
    then have "(of_int (round_half_even (d * 2 ^ 26)) :: rat) \<le> of_int 13421772"
      by (simp only: of_int_le_iff)
    then have "round_binary32 d \<le> 13421772 / 2 ^ 26"
      unfolding r by (simp add: divide_right_mono)
    then show ?thesis by (simp add: double_0_2_def)
  next
    case 4
    have "round_binary32 (26843545 / 134217728) = 13421772 / 2 ^ 26"
      by (simp add: float_simps)
    then show ?thesis unfolding 4 by (simp add: double_0_2_def)
  qed
qed

lemma plan_size_bounded:
  assumes f: "f \<le> double_0_2" and n: "max_blocks < n"
  shows "\<not> round_binary32 (of_nat n) < round_binary32 (round_binary32 (of_nat max_blocks) * f)"
proof -
  define M :: rat where "M = of_nat max_blocks"
  define N :: rat where "N = of_nat n"
  define A where "A = round_binary32 M"
  have M0: "0 \<le> M" by (simp add: M_def)
  from n have "Suc max_blocks \<le> n" by simp
  then have "(of_nat (Suc max_blocks) :: rat) \<le> of_nat n" by (simp only: of_nat_le_iff)
  then have N: "M + 1 \<le> N" by (simp add: M_def N_def)
  then have N0: "0 \<le> N" using M0 by simp
  from round_binary32_nonneg [OF N0] have R0: "0 \<le> round_binary32 N" .
  note R = round_binary32_near(2) [OF N0]
  from round_binary32_nonneg [OF M0] have A0: "0 \<le> A" by (simp add: A_def)
  from round_binary32_near(1) [OF M0] have A: "A \<le> M + M / 2 ^ 24 + 1 / 2 ^ 150"
    by (simp only: A_def)
  show ?thesis
  proof (cases "0 \<le> A * f")
    case False
    then have "round_binary32 (A * f) \<le> 0" by (intro round_binary32_nonpos) simp
    with R0 show ?thesis by (simp add: A_def M_def N_def)
  next
    case True
    note T = round_binary32_near(1) [OF True]
    from f A0 have "A * f \<le> A * double_0_2" by (rule mult_left_mono)
    then have P: "A * f \<le> A * 3602879701896397 / 18014398509481984"
      by (simp add: double_0_2_def)
    from R T P A N M0 have "round_binary32 (A * f) \<le> round_binary32 N"
      by simp
    then show ?thesis by (simp add: A_def M_def N_def)
  qed
qed

subsection \<open>The sampling plan\<close>

lemma blocklist_insert_ascending:
  "sorted_wrt (<) blocklist \<Longrightarrow> sorted_wrt (<) (blocklist_insert x blocklist)"
  by (simp add: blocklist_insert_def strict_sorted_iff sorted_insort distinct_insort)

lemma blocklist_insert_set: "set (blocklist_insert x blocklist) = insert x (set blocklist)"
  by (auto simp: blocklist_insert_def set_insort_key)

lemma blocklist_insert_length:
  "length blocklist \<le> length (blocklist_insert x blocklist)
   \<and> length (blocklist_insert x blocklist) \<le> Suc (length blocklist)"
  by (simp add: blocklist_insert_def)

text \<open>
  What a finished plan looks like: strictly ascending, made of the numbers it started with
  and of numbers drawn, and as long as the first length that is not below the product
  \<^verbatim>\<open>max_blocks * frac\<close> as floats.
\<close>

lemma blocklist_loop_plan:
  assumes run: "blocklist_loop distribution max_blocks frac' blocklist generator = Some plan"
      and asc: "sorted_wrt (<) blocklist"
  shows "sorted_wrt (<) plan"
    and "length blocklist \<le> length plan"
    and "\<forall>b\<in>set plan. b \<in> set blocklist \<or> (\<exists>g g'. distribution max_blocks g = Some (b, g'))"
    and "\<not> float_of_nat (length plan) < float_mult (float_of_nat max_blocks) frac'"
    and "length blocklist < length plan
         \<Longrightarrow> float_of_nat (length plan - 1) < float_mult (float_of_nat max_blocks) frac'"
proof -
  let ?Q = "\<lambda>(mb :: nat) (f :: rat) (bl :: blocklist_t) (plan :: blocklist_t).
              sorted_wrt (<) plan
            \<and> length bl \<le> length plan
            \<and> (\<forall>b\<in>set plan. b \<in> set bl \<or> (\<exists>g g'. distribution mb g = Some (b, g')))
            \<and> \<not> float_of_nat (length plan) < float_mult (float_of_nat mb) f
            \<and> (length bl < length plan
                 \<longrightarrow> float_of_nat (length plan - 1) < float_mult (float_of_nat mb) f)"
  let ?P = "\<lambda>dist mb (f :: rat) (bl :: blocklist_t) (g :: 'a) plan.
              dist = distribution \<longrightarrow> sorted_wrt (<) bl \<longrightarrow> ?Q mb f bl plan"
  have "?P distribution max_blocks frac' blocklist generator plan"
  proof (rule blocklist_loop.raw_induct [where P = ?P, OF _ run])
    fix loop dist mb and f :: rat and bl :: blocklist_t and g :: 'a and plan
    assume IH: "\<And>dist mb f bl g plan. loop dist mb f bl g = Some plan \<Longrightarrow> ?P dist mb f bl g plan"
      and body: "(if float_of_nat (length bl) < float_mult (float_of_nat mb) f
                  then (case dist mb g of
                          None \<Rightarrow> None
                        | Some (x, g') \<Rightarrow> loop dist mb f (blocklist_insert x bl) g')
                  else Some bl) = Some plan"
    show "?P dist mb f bl g plan"
    proof (intro impI)
      assume eq: "dist = distribution" and asc: "sorted_wrt (<) bl"
      show "?Q mb f bl plan"
      proof (cases "float_of_nat (length bl) < float_mult (float_of_nat mb) f")
        case False
        with body have "plan = bl" by simp
        with asc False show ?thesis by simp
      next
        case True
        with body obtain x g' where call: "dist mb g = Some (x, g')"
          and rec: "loop dist mb f (blocklist_insert x bl) g' = Some plan"
          by (auto split: option.splits)
        from IH [OF rec, rule_format, OF eq blocklist_insert_ascending [OF asc]]
        have q: "?Q mb f (blocklist_insert x bl) plan" .
        note len = blocklist_insert_length [of bl x]
        from q len have "length bl \<le> length plan" by simp
        moreover from q call eq
        have "\<forall>b\<in>set plan. b \<in> set bl \<or> (\<exists>g g'. distribution mb g = Some (b, g'))"
          by (auto simp: blocklist_insert_set)
        moreover have "float_of_nat (length plan - 1) < float_mult (float_of_nat mb) f"
          if "length bl < length plan"
        proof (cases "length (blocklist_insert x bl) < length plan")
          case True
          with q show ?thesis by simp
        next
          case False
          with q have "length plan = length (blocklist_insert x bl)" by simp
          with that len have "length plan - 1 = length bl" by simp
          with \<open>float_of_nat (length bl) < float_mult (float_of_nat mb) f\<close> show ?thesis
            by simp
        qed
        ultimately show ?thesis using q by simp
      qed
    qed
  qed
  with asc show "sorted_wrt (<) plan"
    and "length blocklist \<le> length plan"
    and "\<forall>b\<in>set plan. b \<in> set blocklist \<or> (\<exists>g g'. distribution max_blocks g = Some (b, g'))"
    and "\<not> float_of_nat (length plan) < float_mult (float_of_nat max_blocks) frac'"
    and "length blocklist < length plan
         \<Longrightarrow> float_of_nat (length plan - 1) < float_mult (float_of_nat max_blocks) frac'"
    by simp_all
qed

lemma free_block:
  assumes "length (blocklist :: blocklist_t) \<le> max_blocks"
  shows "\<exists>k\<le>max_blocks. k \<notin> set blocklist"
proof (rule ccontr)
  assume "\<not> (\<exists>k\<le>max_blocks. k \<notin> set blocklist)"
  then have "{..max_blocks} \<subseteq> set blocklist" by auto
  then have "card {..max_blocks} \<le> card (set blocklist)"
    by (intro card_mono) simp_all
  also have "\<dots> \<le> length blocklist"
    by (rule card_length)
  finally show False
    using assms by simp
qed

text \<open>Draws of numbers that are in the plan already leave the list as it is.\<close>

lemma blocklist_loop_skip:
  assumes calls: "\<forall>i. distribution max_blocks (s i) = Some (v i, s (Suc i))"
      and "\<forall>m. i \<le> m \<and> m < j \<longrightarrow> v m \<in> set blocklist" and "i \<le> j"
  shows "blocklist_loop distribution max_blocks frac' blocklist (s i)
           = blocklist_loop distribution max_blocks frac' blocklist (s j)"
  using assms(2,3)
proof (induction "j - i" arbitrary: i)
  case 0
  then show ?case by simp
next
  case (Suc d)
  then have "i < j" and "v i \<in> set blocklist" by auto
  then have same: "blocklist_insert (v i) blocklist = blocklist"
    by (simp add: blocklist_insert_def)
  from Suc.hyps(2) Suc.prems \<open>i < j\<close>
  have rest: "blocklist_loop distribution max_blocks frac' blocklist (s (Suc i))
           = blocklist_loop distribution max_blocks frac' blocklist (s j)"
    by (intro Suc.hyps(1)) auto
  from calls have call: "distribution max_blocks (s i) = Some (v i, s (Suc i))" by simp
  show ?case
  proof (cases "float_of_nat (length blocklist) < float_mult (float_of_nat max_blocks) frac'")
    case True
    then have "blocklist_loop distribution max_blocks frac' blocklist (s i)
                 = blocklist_loop distribution max_blocks frac' blocklist (s (Suc i))"
      by (subst blocklist_loop.simps) (simp add: same call)
    with rest show ?thesis by simp
  next
    case False
    then have "blocklist_loop distribution max_blocks frac' blocklist (s i) = Some blocklist"
      and "blocklist_loop distribution max_blocks frac' blocklist (s j) = Some blocklist"
      by (subst blocklist_loop.simps, simp)+
    then show ?thesis by simp
  qed
qed

text \<open>
  The drawing loop ends when every call of the distribution returns, the numbers returned
  keep covering the range from 0 to \<open>max_blocks\<close>, and \<open>frac\<close> has passed the guard.
\<close>

lemma blocklist_loop_terminates:
  assumes calls: "\<forall>i. distribution max_blocks (s i) = Some (v i, s (Suc i))"
      and fair: "\<forall>i. \<forall>k\<le>max_blocks. \<exists>j\<ge>i. v j = k"
      and cap: "frac' \<le> double_0_2"
  shows "\<exists>plan. blocklist_loop distribution max_blocks frac' blocklist (s i) = Some plan"
proof (induction "Suc max_blocks - length blocklist" arbitrary: blocklist i rule: less_induct)
  case less
  show ?case
  proof (cases "float_of_nat (length blocklist) < float_mult (float_of_nat max_blocks) frac'")
    case False
    then show ?thesis
      by (subst blocklist_loop.simps) simp
  next
    case True
    have len: "length blocklist \<le> max_blocks"
    proof (rule ccontr)
      assume "\<not> length blocklist \<le> max_blocks"
      then have "max_blocks < length blocklist" by simp
      from plan_size_bounded [OF cap this] True show False
        by (simp add: float_of_nat_def float_mult_def)
    qed
    from free_block [OF len] obtain k where k: "k \<le> max_blocks" "k \<notin> set blocklist"
      by blast
    from fair k(1) obtain j0 where "i \<le> j0" "v j0 = k"
      by blast
    with k(2) have ex: "\<exists>j. i \<le> j \<and> v j \<notin> set blocklist"
      by blast
    define j where "j = (LEAST j. i \<le> j \<and> v j \<notin> set blocklist)"
    from LeastI_ex [OF ex] have j: "i \<le> j" "v j \<notin> set blocklist"
      by (simp_all add: j_def)
    have "v m \<in> set blocklist" if "i \<le> m" "m < j" for m
    proof (rule ccontr)
      assume "v m \<notin> set blocklist"
      with that(1) have "i \<le> m \<and> v m \<notin> set blocklist" by simp
      then have "j \<le> m" unfolding j_def by (rule Least_le)
      with that(2) show False by simp
    qed
    then have before: "\<forall>m. i \<le> m \<and> m < j \<longrightarrow> v m \<in> set blocklist"
      by blast
    from calls have call: "distribution max_blocks (s j) = Some (v j, s (Suc j))" by simp
    have "blocklist_loop distribution max_blocks frac' blocklist (s i)
            = blocklist_loop distribution max_blocks frac' blocklist (s j)"
      using calls before j(1) by (rule blocklist_loop_skip)
    also have "\<dots> = blocklist_loop distribution max_blocks frac' (insort (v j) blocklist) (s (Suc j))"
      using True j(2) by (subst blocklist_loop.simps) (simp add: blocklist_insert_def call)
    finally have step: "blocklist_loop distribution max_blocks frac' blocklist (s i)
            = blocklist_loop distribution max_blocks frac' (insort (v j) blocklist) (s (Suc j))" .
    from len have "Suc max_blocks - length (insort (v j) blocklist)
                     < Suc max_blocks - length blocklist"
      by simp
    from less.hyps [OF this, of "Suc j"] step show ?thesis
      by simp
  qed
qed

text \<open>
  No binary32 value lies between one fifth and the double nearest to it: a value that is at
  least \<open>0.2\<close> is above the literal of the guard.
\<close>

lemma no_binary32_between:
  assumes b: "is_binary32 m e" and ge: "1 / 5 \<le> float_value m e"
  shows "double_0_2 < float_value m e"
proof (cases "0 \<le> e")
  case True
  with ge have "(0::rat) < of_int m * 2 ^ nat e"
    by (simp add: float_value_def)
  then have "0 < m"
    by (simp add: zero_less_mult_iff)
  then have "(1::rat) \<le> of_int m" by simp
  moreover have "(1::rat) \<le> 2 ^ nat e" by simp
  ultimately have "(1::rat) * 1 \<le> of_int m * 2 ^ nat e"
    by (intro mult_mono) simp_all
  with True show ?thesis
    by (simp add: float_value_def double_0_2_def)
next
  case False
  define k where "k = nat (- e)"
  from False have v: "float_value m e = of_int m / 2 ^ k"
    by (simp add: float_value_def k_def)
  from ge have "(2::rat) ^ k \<le> 5 * of_int m"
    unfolding v by (simp add: field_simps)
  then have "(of_int (2 ^ k) :: rat) \<le> of_int (5 * m)"
    by simp
  then have low: "(2::int) ^ k \<le> 5 * m"
    by (simp only: of_int_le_iff)
  from b have "m < 2 ^ 24" by (auto simp: is_binary32_def)
  with low have p27: "(2::int) ^ k < 2 ^ 27" by simp
  have k27: "k < 27"
    by (rule power_less_imp_less_exp [OF _ p27]) simp
  show ?thesis
  proof (rule ccontr)
    assume "\<not> double_0_2 < float_value m e"
    then have "of_int m / 2 ^ k \<le> (3602879701896397 / 2 ^ 54 :: rat)"
      unfolding v by (simp add: double_0_2_def)
    then have "of_int m * (2::rat) ^ 54 \<le> 3602879701896397 * 2 ^ k"
      by (simp add: field_simps)
    moreover from k27 have "(2::rat) ^ 54 = 2 ^ (54 - k) * 2 ^ k"
      by (simp add: power_add [symmetric])
    ultimately have "(of_int m * 2 ^ (54 - k)) * (2::rat) ^ k \<le> 3602879701896397 * 2 ^ k"
      by (simp add: mult.assoc)
    then have "of_int m * (2::rat) ^ (54 - k) \<le> 3602879701896397"
      by simp
    then have "(of_int (m * 2 ^ (54 - k)) :: rat) \<le> of_int 3602879701896397"
      by simp
    then have up: "m * 2 ^ (54 - k) \<le> (3602879701896397 :: int)"
      by (simp only: of_int_le_iff)
    from k27 have "(2::int) ^ 54 = 2 ^ (54 - k) * 2 ^ k"
      by (simp add: power_add [symmetric])
    also from low have "\<dots> \<le> 2 ^ (54 - k) * (5 * m)"
      by (intro mult_left_mono) simp_all
    finally have "(18014398509481984 :: int) \<le> 5 * (m * 2 ^ (54 - k))"
      by (simp add: mult.commute mult.left_commute)
    with up have eq: "m * 2 ^ (54 - k) = (3602879701896397 :: int)"
      by arith
    from k27 have "even ((2::int) ^ (54 - k))" by simp
    then have "even (m * 2 ^ (54 - k))" by simp
    with eq show False by simp
  qed
qed

subsection \<open>scan\_gzip\<close>




subsection \<open>Evaluation of closed runs\<close>

lemmas run_simps =
  example_config_def example_image_def fresh_phase1_def
  dispatch_loop.simps candidate_def it_at_end_def image_size_def past_offset_end_def
  process_page_def schedule_work_def get_pos0_def pos0_str_def segments_def itos.simps
  digit_char_def get_sbuf_def get_sbuf_loop.simps sbuf_alloc_def after_alloc_def
  after_bad_alloc_def page_at_def hash_page_def it_next_def it_begin_def xmlout_def
  sleep_for_def notify_user_def page_exception_entry_def bad_alloc_entry_def seek_block_def
  set_raw_offset_def

section \<open>The claims\<close>

text \<open>
  Claim C1 (dedup), as the code has it. In one run of the dispatch loop that starts with an
  empty queue, over pages of positive size and a plan in ascending order, no two work units
  pushed have equal position strings, and no page whose position string is in the seen-page
  set is pushed. The loop looks the string up but does not insert it: the seen-page set
  after the run is the set before the run.
\<close>

theorem dedup_within_one_run:
  assumes "dispatch_loop c img si it st = Some st'"
      and "0 < img_pagesize img"
      and "sorted_wrt (<) si"
      and "tp st = []"
  shows "distinct (map (pos0_str \<circ> pos0) (tp st'))
       \<and> (\<forall>u\<in>set (tp st'). pos0_str (pos0 u) \<notin> seen_page_ids st)
       \<and> seen_page_ids st' = seen_page_ids st"
  using dispatch_loop_ascending [OF assms] distinct_leaf_strings [of "tp st'"]
  by blast

theorem dedup_within_one_run_witness:
  "dispatch_loop (example_config\<lparr>sampling := True\<rparr>) example_image [0, 1, 2] it_begin
      (fresh_phase1\<lparr>seen_page_ids := {''2''}\<rparr>)
     = Some (fresh_phase1
          \<lparr>seen_page_ids := {''2''}, sha1g := None, sha1_next := 2, total_bytes := 4,
           tp := [\<lparr>pos0 = \<lparr>path = [], offset = 0\<rparr>, buf = [1, 2, 3], pagesize = 2, bufsize = 3\<rparr>,
                  \<lparr>pos0 = \<lparr>path = [], offset = 4\<rparr>, buf = [5, 6], pagesize = 2, bufsize = 2\<rparr>],
           alloc_calls := 2\<rparr>)
   \<and> distinct [''0'', ''4'']
   \<and> ''0'' \<notin> {''2''} \<and> ''4'' \<notin> {''2''}"
proof -
  let ?c = "example_config\<lparr>sampling := True\<rparr>"
  let ?st = "fresh_phase1\<lparr>seen_page_ids := {''2''}\<rparr>"
  let ?st' = "fresh_phase1
          \<lparr>seen_page_ids := {''2''}, sha1g := None, sha1_next := 2, total_bytes := 4,
           tp := [\<lparr>pos0 = \<lparr>path = [], offset = 0\<rparr>, buf = [1, 2, 3], pagesize = 2, bufsize = 3\<rparr>,
                  \<lparr>pos0 = \<lparr>path = [], offset = 4\<rparr>, buf = [5, 6], pagesize = 2, bufsize = 2\<rparr>],
           alloc_calls := 2\<rparr>"
  have run: "dispatch_loop ?c example_image [0, 1, 2] it_begin ?st = Some ?st'"
    by (simp add: run_simps)
  have h: "0 < img_pagesize example_image" "sorted_wrt (<) [0 :: nat, 1, 2]" "tp ?st = []"
    by (simp_all add: example_image_def fresh_phase1_def)
  from dedup_within_one_run [OF run h] run show ?thesis
    by (simp add: fresh_phase1_def pos0_str_def segments_def itos.simps digit_char_def)
qed

text \<open>
  The claim's insertion and its consequence for several passes do not hold: after a
  sampling pass over block 0 the seen-page set is still empty, and a second pass from the
  state the first one left pushes position \<open>0\<close> again.
\<close>

theorem second_pass_resubmits_counterexample:
  "dispatch_loop (example_config\<lparr>sampling := True\<rparr>) example_image [0] it_begin fresh_phase1
     = Some (fresh_phase1
          \<lparr>sha1g := Some [1, 2], sha1_next := 2, total_bytes := 2,
           tp := [\<lparr>pos0 = \<lparr>path = [], offset = 0\<rparr>, buf = [1, 2, 3], pagesize = 2, bufsize = 3\<rparr>],
           alloc_calls := 1\<rparr>)
   \<and> seen_page_ids (fresh_phase1
          \<lparr>sha1g := Some [1, 2], sha1_next := 2, total_bytes := 2,
           tp := [\<lparr>pos0 = \<lparr>path = [], offset = 0\<rparr>, buf = [1, 2, 3], pagesize = 2, bufsize = 3\<rparr>],
           alloc_calls := 1\<rparr>) = {}
   \<and> map_option (map (pos0_str \<circ> pos0) \<circ> tp)
       (dispatch_loop (example_config\<lparr>sampling := True\<rparr>) example_image [0] it_begin
          (fresh_phase1
            \<lparr>sha1g := Some [1, 2], sha1_next := 2, total_bytes := 2,
             tp := [\<lparr>pos0 = \<lparr>path = [], offset = 0\<rparr>, buf = [1, 2, 3], pagesize = 2, bufsize = 3\<rparr>],
             alloc_calls := 1\<rparr>))
     = Some [''0'', ''0'']
   \<and> \<not> distinct [''0'', ''0'']"
  by (simp add: run_simps)

text \<open>
  Claim C2 (scenario S5), as the code has it. When \<^verbatim>\<open>sbuf_alloc\<close> throws
  \<^verbatim>\<open>std::bad_alloc\<close> twice and then succeeds: with \<open>max_bad_alloc_errors = 3\<close>,
  \<^verbatim>\<open>get_sbuf\<close> returns the page after three calls and two retry entries in the report;
  with \<open>max_bad_alloc_errors = 1\<close> it throws the too-many-allocation-errors exception after
  one call and one entry.
\<close>

theorem allocator_retry_scenario:
  assumes "alloc_script st = Alloc_bad_alloc # Alloc_bad_alloc # rest"
      and "rest = [] \<or> hd rest = Alloc_ok"
  shows "(max_bad_alloc_errors c = 3 \<longrightarrow>
            fst (get_sbuf c img it st) = Inr (page_at img it)
            \<and> xreport (snd (get_sbuf c img it st))
                = xreport st @ [bad_alloc_entry it 0, bad_alloc_entry it 1]
            \<and> alloc_calls (snd (get_sbuf c img it st)) = alloc_calls st + 3)
       \<and> (max_bad_alloc_errors c = 1 \<longrightarrow>
            fst (get_sbuf c img it st) = Inl (Runtime_error ''too many sbuf allocation errors'')
            \<and> xreport (snd (get_sbuf c img it st)) = xreport st @ [bad_alloc_entry it 0]
            \<and> alloc_calls (snd (get_sbuf c img it st)) = alloc_calls st + 1)"
proof (intro conjI impI)
  assume three: "max_bad_alloc_errors c = 3"
  from assms three
  have "get_sbuf c img it st
          = (Inr (page_at img it),
             after_alloc (after_bad_alloc c it 1 (after_alloc (after_bad_alloc c it 0 (after_alloc st)))))"
    by (cases rest) (simp_all add: get_sbuf_def get_sbuf_loop_unfold split: alloc_outcome.splits)
  then show "fst (get_sbuf c img it st) = Inr (page_at img it)"
    and "xreport (snd (get_sbuf c img it st))
           = xreport st @ [bad_alloc_entry it 0, bad_alloc_entry it 1]"
    and "alloc_calls (snd (get_sbuf c img it st)) = alloc_calls st + 3"
    by (simp_all add: after_alloc_def after_bad_alloc_def xmlout_def sleep_for_def)
next
  assume one: "max_bad_alloc_errors c = 1"
  from assms one
  have "get_sbuf c img it st
          = (Inl (Runtime_error ''too many sbuf allocation errors''),
             after_bad_alloc c it 0 (after_alloc st))"
    by (simp add: get_sbuf_def get_sbuf_loop_unfold)
  then show "fst (get_sbuf c img it st) = Inl (Runtime_error ''too many sbuf allocation errors'')"
    and "xreport (snd (get_sbuf c img it st)) = xreport st @ [bad_alloc_entry it 0]"
    and "alloc_calls (snd (get_sbuf c img it st)) = alloc_calls st + 1"
    by (simp_all add: after_alloc_def after_bad_alloc_def xmlout_def sleep_for_def)
qed

theorem allocator_retry_scenario_witness:
  "fst (get_sbuf example_config example_image it_begin
          (fresh_phase1\<lparr>alloc_script := [Alloc_bad_alloc, Alloc_bad_alloc]\<rparr>))
     = Inr (page_at example_image it_begin)
   \<and> length (xreport (snd (get_sbuf example_config example_image it_begin
          (fresh_phase1\<lparr>alloc_script := [Alloc_bad_alloc, Alloc_bad_alloc]\<rparr>)))) = 2
   \<and> alloc_calls (snd (get_sbuf example_config example_image it_begin
          (fresh_phase1\<lparr>alloc_script := [Alloc_bad_alloc, Alloc_bad_alloc]\<rparr>))) = 3
   \<and> fst (get_sbuf (example_config\<lparr>max_bad_alloc_errors := 1\<rparr>) example_image it_begin
          (fresh_phase1\<lparr>alloc_script := [Alloc_bad_alloc, Alloc_bad_alloc]\<rparr>))
     = Inl (Runtime_error ''too many sbuf allocation errors'')
   \<and> length (xreport (snd (get_sbuf (example_config\<lparr>max_bad_alloc_errors := 1\<rparr>)
          example_image it_begin
          (fresh_phase1\<lparr>alloc_script := [Alloc_bad_alloc, Alloc_bad_alloc]\<rparr>)))) = 1"
proof -
  let ?st = "fresh_phase1\<lparr>alloc_script := [Alloc_bad_alloc, Alloc_bad_alloc]\<rparr>"
  have s: "alloc_script ?st = Alloc_bad_alloc # Alloc_bad_alloc # []" by simp
  have r: "([] :: alloc_outcome list) = [] \<or> hd [] = Alloc_ok" by simp
  have m3: "max_bad_alloc_errors example_config = 3" by (simp add: example_config_def)
  have m1: "max_bad_alloc_errors (example_config\<lparr>max_bad_alloc_errors := 1\<rparr>) = 1" by simp
  from allocator_retry_scenario [OF s r, of example_config example_image it_begin] m3
    allocator_retry_scenario [OF s r, of "example_config\<lparr>max_bad_alloc_errors := 1\<rparr>"
      example_image it_begin] m1
  show ?thesis
    by (simp add: fresh_phase1_def)
qed

text \<open>
  With \<open>max_bad_alloc_errors = 1\<close> the allocator is called once, not twice, before the
  exception.
\<close>

theorem allocator_retry_budget_one_counterexample:
  "fst (get_sbuf (example_config\<lparr>max_bad_alloc_errors := 1\<rparr>) example_image it_begin
          (fresh_phase1\<lparr>alloc_script := [Alloc_bad_alloc, Alloc_bad_alloc]\<rparr>))
     = Inl (Runtime_error ''too many sbuf allocation errors'')
   \<and> alloc_calls (snd (get_sbuf (example_config\<lparr>max_bad_alloc_errors := 1\<rparr>) example_image
          it_begin (fresh_phase1\<lparr>alloc_script := [Alloc_bad_alloc, Alloc_bad_alloc]\<rparr>))) = 1
   \<and> alloc_calls (snd (get_sbuf (example_config\<lparr>max_bad_alloc_errors := 1\<rparr>) example_image
          it_begin (fresh_phase1\<lparr>alloc_script := [Alloc_bad_alloc, Alloc_bad_alloc]\<rparr>))) \<noteq> 2"
  by (simp add: run_simps)

text \<open>
  Claim C3 (sampling plan). The distribution is built over the closed range from 0 to
  \<open>max_blocks\<close>, so \<open>max_blocks\<close> itself can be drawn and then enters the plan. With
  the library of GCC this happens for an image of 412 blocks and a sampling fraction of
  0.19: the 89th number drawn is 412, and the plan of 79 blocks that is returned ends with
  it, a block that is not below \<open>max_blocks\<close>. The other parts of the claim hold as
  \<open>blocklist_loop_plan\<close> has them: the plan is ascending without duplicates, and its
  length is the first at which the size is not below the product
  \<^verbatim>\<open>max_blocks * frac\<close>, both taken as floats.
\<close>

theorem sampling_plan_draws_max_blocks:
  "make_sorted_random_blocklist libstdcxx [] 412 (round_binary32 (19 / 100))
     = Some (Inr
      [0, 3, 6, 14, 19, 20, 22, 25, 27, 30, 37, 51, 54, 68, 90, 96, 98, 102, 108, 109, 112,
       113, 114, 131, 135, 148, 150, 158, 171, 172, 180, 189, 191, 197, 200, 204, 206, 208,
       213, 214, 217, 218, 220, 243, 260, 261, 269, 270, 277, 280, 283, 284, 289, 298, 299,
       304, 311, 312, 314, 316, 318, 341, 343, 349, 358, 365, 366, 370, 373, 375, 377, 384,
       386, 388, 391, 405, 407, 409, 412])
   \<and> \<not> (412 :: nat) < 412"
  by (simp add: make_sorted_random_blocklist_def double_0_2_def libstdcxx_def
        blocklist_loop.simps libstdcxx_distribution.simps minstd_rand0_def
        blocklist_insert_def float_simps)

text \<open>
  Claim C4 (hash validity). After a run of the dispatch loop, a digest that
  \<^verbatim>\<open>wait_for_workers\<close> writes is the SHA-1 of what the generator had been fed before
  the run followed by the logical pages of all work units pushed in the run, in the order
  of pushing; a generator that is gone at the start stays gone, so no digest is written;
  and a page is fed to a live generator exactly when its offset is \<open>sha1_next\<close>, which
  then advances by the page size, while any other offset discards the generator.
\<close>

theorem rolling_hash_validity:
  assumes "dispatch_loop c img si it st = Some st'"
  shows "(\<forall>fed0 d. sha1g st = Some fed0 \<and> hashdigest sha1 st' = Some d
            \<longrightarrow> d = sha1 (fed0 @ concat (map page_bytes (drop (length (tp st)) (tp st')))))
       \<and> (sha1g st = None \<longrightarrow> hashdigest sha1 st' = None)
       \<and> (\<forall>sbuf s fed. sha1g s = Some fed \<longrightarrow>
            (if offset (pos0 sbuf) = sha1_next s
             then sha1g (hash_page sbuf s) = Some (fed @ page_bytes sbuf)
                  \<and> sha1_next (hash_page sbuf s) = sha1_next s + pagesize sbuf
             else sha1g (hash_page sbuf s) = None))"
proof -
  let ?I = "\<lambda>(si :: blocklist_t) (it :: iterator) (s :: phase1).
              \<exists>new. tp s = tp st @ new
                \<and> (\<forall>fed. sha1g s = Some fed
                      \<longrightarrow> (\<exists>fed0. sha1g st = Some fed0 \<and> fed = fed0 @ concat (map page_bytes new)))"
  have "\<exists>si' it'. ?I si' it' st'"
  proof (rule dispatch_loop_rule [OF assms, where I = ?I])
    show "?I si it st" by simp
  next
    fix si it it1 and s :: phase1
    assume "?I si it s"
    then obtain new where new: "tp s = tp st @ new"
      "\<forall>fed. sha1g s = Some fed
         \<longrightarrow> (\<exists>fed0. sha1g st = Some fed0 \<and> fed = fed0 @ concat (map page_bytes new))"
      by blast
    let ?s' = "process_page c img it1 s"
    from process_page_sha1 [of c img it1 s]
    have "\<exists>new'. tp ?s' = tp st @ new'
            \<and> (\<forall>fed. sha1g ?s' = Some fed
                  \<longrightarrow> (\<exists>fed0. sha1g st = Some fed0 \<and> fed = fed0 @ concat (map page_bytes new')))"
    proof
      assume "tp ?s' = tp s \<and> sha1g ?s' = sha1g s"
      with new show ?thesis by auto
    next
      assume a: "tp ?s' = tp s @ [page_at img it1]
                 \<and> sha1g ?s' = sha1g (hash_page (page_at img it1) s)"
      have "\<forall>fed. sha1g ?s' = Some fed
              \<longrightarrow> (\<exists>fed0. sha1g st = Some fed0
                      \<and> fed = fed0 @ concat (map page_bytes (new @ [page_at img it1])))"
      proof (intro allI impI)
        fix fed
        assume "sha1g ?s' = Some fed"
        with a have "sha1g (hash_page (page_at img it1) s) = Some fed" by simp
        from hash_page_Some [OF this] obtain fed1
          where "sha1g s = Some fed1" "fed = fed1 @ page_bytes (page_at img it1)" by blast
        with new(2) show "\<exists>fed0. sha1g st = Some fed0
                      \<and> fed = fed0 @ concat (map page_bytes (new @ [page_at img it1]))"
          by auto
      qed
      moreover from a new(1) have "tp ?s' = tp st @ (new @ [page_at img it1])" by simp
      ultimately show ?thesis by blast
    qed
    then show "?I (if sampling c then tl si else si)
                 (if sampling c then it1 else it_next img it1) ?s'" .
  qed
  then obtain new where new: "tp st' = tp st @ new"
    "\<forall>fed. sha1g st' = Some fed
       \<longrightarrow> (\<exists>fed0. sha1g st = Some fed0 \<and> fed = fed0 @ concat (map page_bytes new))"
    by blast
  from new(1) have drop: "drop (length (tp st)) (tp st') = new" by simp
  show ?thesis
  proof (intro conjI allI impI)
    fix fed0 d
    assume "sha1g st = Some fed0 \<and> hashdigest sha1 st' = Some d"
    with new(2) show "d = sha1 (fed0 @ concat (map page_bytes (drop (length (tp st)) (tp st'))))"
      unfolding drop by (auto simp: hashdigest_def)
  next
    assume "sha1g st = None"
    with new(2) show "hashdigest sha1 st' = None"
      by (cases "sha1g st'") (auto simp: hashdigest_def)
  next
    fix sbuf and s :: phase1 and fed
    assume "sha1g s = Some fed"
    from hash_page_live [OF this, of sbuf]
    show "if offset (pos0 sbuf) = sha1_next s
          then sha1g (hash_page sbuf s) = Some (fed @ page_bytes sbuf)
               \<and> sha1_next (hash_page sbuf s) = sha1_next s + pagesize sbuf
          else sha1g (hash_page sbuf s) = None"
      by simp
  qed
qed

theorem rolling_hash_validity_witness:
  "dispatch_loop example_config example_image [] it_begin fresh_phase1
     = Some (fresh_phase1
          \<lparr>sha1g := Some [1, 2, 3, 4, 5, 6], sha1_next := 6, total_bytes := 6,
           tp := [\<lparr>pos0 = \<lparr>path = [], offset = 0\<rparr>, buf = [1, 2, 3], pagesize = 2, bufsize = 3\<rparr>,
                  \<lparr>pos0 = \<lparr>path = [], offset = 2\<rparr>, buf = [3, 4, 5], pagesize = 2, bufsize = 3\<rparr>,
                  \<lparr>pos0 = \<lparr>path = [], offset = 4\<rparr>, buf = [5, 6], pagesize = 2, bufsize = 2\<rparr>],
           alloc_calls := 3\<rparr>)
   \<and> sha1g fresh_phase1 = Some []
   \<and> map_option (hashdigest id)
        (dispatch_loop example_config example_image [] it_begin fresh_phase1)
       = Some (Some [1, 2, 3, 4, 5, 6])
   \<and> map_option (concat \<circ> map page_bytes \<circ> tp)
        (dispatch_loop example_config example_image [] it_begin fresh_phase1)
       = Some [1, 2, 3, 4, 5, 6]
   \<and> map_option (hashdigest id)
        (dispatch_loop (example_config\<lparr>opt_offset_start := 2\<rparr>) example_image []
           (set_raw_offset 2 it_begin) fresh_phase1)
       = Some None"
proof -
  let ?st' = "fresh_phase1
          \<lparr>sha1g := Some [1, 2, 3, 4, 5, 6], sha1_next := 6, total_bytes := 6,
           tp := [\<lparr>pos0 = \<lparr>path = [], offset = 0\<rparr>, buf = [1, 2, 3], pagesize = 2, bufsize = 3\<rparr>,
                  \<lparr>pos0 = \<lparr>path = [], offset = 2\<rparr>, buf = [3, 4, 5], pagesize = 2, bufsize = 3\<rparr>,
                  \<lparr>pos0 = \<lparr>path = [], offset = 4\<rparr>, buf = [5, 6], pagesize = 2, bufsize = 2\<rparr>],
           alloc_calls := 3\<rparr>"
  have run: "dispatch_loop example_config example_image [] it_begin fresh_phase1 = Some ?st'"
    by (simp add: run_simps)
  have gap: "map_option (hashdigest id)
        (dispatch_loop (example_config\<lparr>opt_offset_start := 2\<rparr>) example_image []
           (set_raw_offset 2 it_begin) fresh_phase1) = Some None"
    by (simp add: run_simps hashdigest_def)
  have live: "sha1g fresh_phase1 = Some []"
    by (simp add: fresh_phase1_def)
  from rolling_hash_validity [OF run, of id] live
  have "\<forall>d. hashdigest id ?st' = Some d
          \<longrightarrow> d = concat (map page_bytes (drop (length (tp fresh_phase1)) (tp ?st')))"
    by simp
  then have "concat (map page_bytes (tp ?st')) = [1, 2, 3, 4, 5, 6]"
    by (simp add: hashdigest_def fresh_phase1_def)
  with run gap live show ?thesis
    by (simp add: hashdigest_def)
qed

text \<open>
  Claim C5 (retry bound). \<^verbatim>\<open>get_sbuf\<close> calls the allocator at most
  \<open>max_bad_alloc_errors\<close> times (\<open>get_sbuf_attempts_bound\<close>) and throws the
  too-many-allocation-errors exception exactly when each of these calls threw
  \<^verbatim>\<open>std::bad_alloc\<close> (\<open>get_sbuf_loop_fatal_iff\<close>); but the exception does not stop
  dispatch. The handler of the dispatch loop catches it as it catches any
  \<^verbatim>\<open>std::exception\<close>: in the run below the allocation for page 0 fails for good, the
  failure is written to the report, and the loop goes on to push the pages at offsets 2
  and 4.
\<close>

theorem fatal_allocation_error_does_not_stop_dispatch:
  "fst (get_sbuf (example_config\<lparr>max_bad_alloc_errors := 1\<rparr>) example_image it_begin
          (fresh_phase1\<lparr>alloc_script := [Alloc_bad_alloc]\<rparr>))
     = Inl (Runtime_error ''too many sbuf allocation errors'')
   \<and> map_option (map (offset \<circ> pos0) \<circ> tp)
        (dispatch_loop (example_config\<lparr>max_bad_alloc_errors := 1\<rparr>) example_image []
           it_begin (fresh_phase1\<lparr>alloc_script := [Alloc_bad_alloc]\<rparr>)) = Some [2, 4]
   \<and> map_option xreport
        (dispatch_loop (example_config\<lparr>max_bad_alloc_errors := 1\<rparr>) example_image []
           it_begin (fresh_phase1\<lparr>alloc_script := [Alloc_bad_alloc]\<rparr>))
     = Some [Debug_exception ''std::bad_alloc''
               [(''name'', ''bad_alloc''), (''pos0'', ''0''), (''retry_count'', ''0'')],
             Debug_exception ''too many sbuf allocation errors''
               [(''name'', ''too many sbuf allocation errors''), (''pos0'', ''0'')]]"
  by (simp add: run_simps)

text \<open>
  Claim C6 (the cap on the sampling fraction), as the code has it. The guard
  \<^verbatim>\<open>frac>0.2\<close> compares the float that the configured fraction is narrowed to with the
  double nearest to one fifth. A float that is at least \<open>0.2\<close> is above that double. So
  a configured fraction \<open>d\<close> is rejected exactly when it is above
  \<open>26843545 / 2^27\<close> (about 0.1999999955), half way between the float \<open>0.2f\<close> and the
  float below it; this covers every \<open>d\<close> that is at least \<open>0.2\<close>. Then building the plan
  throws before the drawing loop is entered, whatever the library would draw, and
  \<^verbatim>\<open>send_data_to_workers\<close> ends with that exception before any page is looked at.
  Every other \<open>d\<close> passes the guard, and the plan is what the drawing loop produces: when
  the calls of the distribution return and keep covering the range from 0 to
  \<open>max_blocks\<close>, the loop ends with an ascending plan whose length is the first that is
  not below the product \<^verbatim>\<open>max_blocks * frac\<close>, taken as floats.
\<close>

theorem sampling_fraction_cap:
  "(\<forall>m e. is_binary32 m e \<and> 1 / 5 \<le> float_value m e \<longrightarrow>
       make_sorted_random_blocklist lib blocklist max_blocks (float_value m e)
         = Some (Inl (Runtime_error ''Specify frac<0.2'')))
   \<and> (1 / 5 \<le> d \<or> 26843545 / 134217728 < d \<longrightarrow>
         make_sorted_random_blocklist lib blocklist max_blocks (round_binary32 d)
           = Some (Inl (Runtime_error ''Specify frac<0.2''))
       \<and> (sampling c \<and> sampling_fraction c = d \<longrightarrow>
            send_data_to_workers c img lib st
              = Some (Inl (Runtime_error ''Specify frac<0.2''))))
   \<and> (d \<le> 26843545 / 134217728 \<longrightarrow>
         make_sorted_random_blocklist lib blocklist max_blocks (round_binary32 d)
           = map_option Inr
               (blocklist_loop (uniform_int_distribution lib) max_blocks (round_binary32 d)
                  blocklist (default_random_engine lib))
       \<and> (s 0 = default_random_engine lib
            \<and> (\<forall>i. uniform_int_distribution lib max_blocks (s i) = Some (v i, s (Suc i)))
            \<and> (\<forall>i. \<forall>k\<le>max_blocks. \<exists>j\<ge>i. v j = k) \<longrightarrow>
            (\<exists>plan. make_sorted_random_blocklist lib [] max_blocks (round_binary32 d)
                      = Some (Inr plan)
                  \<and> sorted_wrt (<) plan
                  \<and> \<not> float_of_nat (length plan)
                        < float_mult (float_of_nat max_blocks) (round_binary32 d)
                  \<and> (plan \<noteq> [] \<longrightarrow>
                       float_of_nat (length plan - 1)
                         < float_mult (float_of_nat max_blocks) (round_binary32 d)))))"
proof (intro conjI allI impI)
  fix m e
  assume "is_binary32 m e \<and> 1 / 5 \<le> float_value m e"
  then have "double_0_2 < float_value m e"
    by (intro no_binary32_between) simp_all
  then show "make_sorted_random_blocklist lib blocklist max_blocks (float_value m e)
               = Some (Inl (Runtime_error ''Specify frac<0.2''))"
    by (simp add: make_sorted_random_blocklist_def)
next
  assume "1 / 5 \<le> d \<or> 26843545 / 134217728 < d"
  then have "26843545 / 134217728 < d" by auto
  then have above: "double_0_2 < round_binary32 d"
    by (rule guard_rejects)
  then show "make_sorted_random_blocklist lib blocklist max_blocks (round_binary32 d)
               = Some (Inl (Runtime_error ''Specify frac<0.2''))"
    by (simp add: make_sorted_random_blocklist_def)
  assume "sampling c \<and> sampling_fraction c = d"
  with above show "send_data_to_workers c img lib st
                     = Some (Inl (Runtime_error ''Specify frac<0.2''))"
    by (simp add: send_data_to_workers_def make_sorted_random_blocklist_def Let_def)
next
  assume "d \<le> 26843545 / 134217728"
  then have below: "round_binary32 d \<le> double_0_2"
    by (rule guard_accepts)
  then show "make_sorted_random_blocklist lib blocklist max_blocks (round_binary32 d)
               = map_option Inr
                   (blocklist_loop (uniform_int_distribution lib) max_blocks (round_binary32 d)
                      blocklist (default_random_engine lib))"
    by (simp add: make_sorted_random_blocklist_def)
  assume "s 0 = default_random_engine lib
            \<and> (\<forall>i. uniform_int_distribution lib max_blocks (s i) = Some (v i, s (Suc i)))
            \<and> (\<forall>i. \<forall>k\<le>max_blocks. \<exists>j\<ge>i. v j = k)"
  then have s0: "s 0 = default_random_engine lib"
    and calls: "\<forall>i. uniform_int_distribution lib max_blocks (s i) = Some (v i, s (Suc i))"
    and fair: "\<forall>i. \<forall>k\<le>max_blocks. \<exists>j\<ge>i. v j = k"
    by blast+
  from blocklist_loop_terminates
         [where distribution = "uniform_int_distribution lib" and s = s and v = v
            and blocklist = "[]" and i = 0, OF calls fair below]
  obtain plan where run: "blocklist_loop (uniform_int_distribution lib) max_blocks
                            (round_binary32 d) [] (default_random_engine lib) = Some plan"
    unfolding s0 by blast
  have asc: "sorted_wrt (<) ([] :: blocklist_t)" by simp
  note p = blocklist_loop_plan [OF run asc]
  from below run
  have "make_sorted_random_blocklist lib [] max_blocks (round_binary32 d) = Some (Inr plan)"
    by (simp add: make_sorted_random_blocklist_def)
  moreover have "plan \<noteq> [] \<longrightarrow>
                   float_of_nat (length plan - 1)
                     < float_mult (float_of_nat max_blocks) (round_binary32 d)"
    using p(5) by simp
  ultimately
  show "\<exists>plan. make_sorted_random_blocklist lib [] max_blocks (round_binary32 d)
                  = Some (Inr plan)
              \<and> sorted_wrt (<) plan
              \<and> \<not> float_of_nat (length plan)
                    < float_mult (float_of_nat max_blocks) (round_binary32 d)
              \<and> (plan \<noteq> [] \<longrightarrow>
                   float_of_nat (length plan - 1)
                     < float_mult (float_of_nat max_blocks) (round_binary32 d))"
    using p(1) p(4) by blast
qed

theorem sampling_fraction_cap_witness:
  "is_binary32 1 (- 2) \<and> (1 / 5 :: rat) \<le> float_value 1 (- 2)
   \<and> make_sorted_random_blocklist round_robin [] 8 (float_value 1 (- 2))
       = Some (Inl (Runtime_error ''Specify frac<0.2''))
   \<and> send_data_to_workers (example_config\<lparr>sampling := True, sampling_fraction := 1 / 4\<rparr>)
        example_image round_robin fresh_phase1
       = Some (Inl (Runtime_error ''Specify frac<0.2''))
   \<and> (1 / 8 :: rat) \<le> 26843545 / 134217728
   \<and> make_sorted_random_blocklist round_robin [] 8 (round_binary32 (1 / 8)) = Some (Inr [8])"
proof -
  have b4: "is_binary32 1 (- 2) \<and> (1 / 5 :: rat) \<le> float_value 1 (- 2)"
    by (simp add: is_binary32_def float_value_def)
  let ?c = "example_config\<lparr>sampling := True, sampling_fraction := 1 / 4\<rparr>"
  have c: "sampling ?c \<and> sampling_fraction ?c = 1 / 4"
    by simp
  have d4: "(1 / 5 :: rat) \<le> 1 / 4 \<or> (26843545 / 134217728 :: rat) < 1 / 4"
    and d8: "(1 / 8 :: rat) \<le> 26843545 / 134217728"
    by simp_all
  have start: "(\<lambda>i. i) 0 = default_random_engine round_robin"
    by (simp add: round_robin_def)
  have calls: "\<forall>i. uniform_int_distribution round_robin 8 i = Some ((i + 8) mod 9, Suc i)"
    by (simp add: round_robin_def)
  have fair: "\<forall>i :: nat. \<forall>k\<le>8. \<exists>j\<ge>i. (j + 8) mod 9 = k"
  proof (intro allI impI)
    fix i k :: nat
    assume k: "k \<le> 8"
    have "9 * i + k + 1 + 8 = 9 * (i + 1) + k" by simp
    then have "(9 * i + k + 1 + 8) mod 9 = (9 * (i + 1) + k) mod 9"
      by (simp only:)
    also have "\<dots> = k mod 9" by (rule mod_mult_self4)
    also from k have "\<dots> = k" by simp
    finally have "i \<le> 9 * i + k + 1 \<and> (9 * i + k + 1 + 8) mod 9 = k"
      by simp
    then show "\<exists>j\<ge>i. (j + 8) mod 9 = k" by blast
  qed
  from start calls fair
  have lib: "(\<lambda>i. i) 0 = default_random_engine round_robin
               \<and> (\<forall>i. uniform_int_distribution round_robin 8 ((\<lambda>i. i) i)
                         = Some ((\<lambda>i. (i + 8) mod 9) i, (\<lambda>i. i) (Suc i)))
               \<and> (\<forall>i :: nat. \<forall>k\<le>8. \<exists>j\<ge>i. (\<lambda>i :: nat. (i + 8) mod 9) j = k)"
    by simp
  have loop: "blocklist_loop (uniform_int_distribution round_robin) 8 (round_binary32 (1 / 8)) []
                (default_random_engine round_robin) = Some [8]"
    by (simp add: blocklist_loop.simps blocklist_insert_def round_robin_def float_simps)
  from sampling_fraction_cap
         [where lib = round_robin and blocklist = "[]" and max_blocks = 8 and d = "1 / 4"
            and c = ?c and img = example_image and st = fresh_phase1] b4 d4 c
  have r4: "make_sorted_random_blocklist round_robin [] 8 (float_value 1 (- 2))
              = Some (Inl (Runtime_error ''Specify frac<0.2''))
            \<and> send_data_to_workers ?c example_image round_robin fresh_phase1
              = Some (Inl (Runtime_error ''Specify frac<0.2''))"
    by blast
  from sampling_fraction_cap
         [where lib = round_robin and blocklist = "[]" and max_blocks = 8 and d = "1 / 8"
            and s = "\<lambda>i. i" and v = "\<lambda>i. (i + 8) mod 9"] d8 lib
  obtain plan where
    built: "make_sorted_random_blocklist round_robin [] 8 (round_binary32 (1 / 8))
              = map_option Inr
                  (blocklist_loop (uniform_int_distribution round_robin) 8
                     (round_binary32 (1 / 8)) [] (default_random_engine round_robin))"
    and plan: "make_sorted_random_blocklist round_robin [] 8 (round_binary32 (1 / 8))
                 = Some (Inr plan)"
    by blast
  from built loop
  have "make_sorted_random_blocklist round_robin [] 8 (round_binary32 (1 / 8)) = Some (Inr [8])"
    by simp
  with b4 r4 d8 show ?thesis
    by simp
qed

text \<open>
  A fraction below \<open>0.2\<close> that is rejected: the double nearest to 0.1999999999 is
  \<open>3602879700094957 / 2^54\<close>, and the float nearest to it is \<open>0.2f\<close>, which is above
  the double \<open>0.2\<close> of the guard.
\<close>

theorem sampling_fraction_below_cap_rejected_counterexample:
  "(0 :: rat) < 3602879700094957 / 18014398509481984
   \<and> (3602879700094957 / 18014398509481984 :: rat) < 1 / 5
   \<and> round_binary32 (3602879700094957 / 18014398509481984) = 13421773 / 67108864
   \<and> send_data_to_workers
        (example_config\<lparr>sampling := True,
                          sampling_fraction := 3602879700094957 / 18014398509481984\<rparr>)
        example_image libstdcxx fresh_phase1
       = Some (Inl (Runtime_error ''Specify frac<0.2''))"
  by (simp add: send_data_to_workers_def make_sorted_random_blocklist_def double_0_2_def
        example_config_def float_simps)

text \<open>
  Claim C7 (sequential coverage), as the code has it. For a sequential run with no offset
  or page gates over an image of \<open>M\<close> pages of positive size, in which no allocation
  fails (the retry budget is at least one) and which starts with an empty seen-page set and
  an empty queue: the run ends, exactly \<open>M\<close> work units are pushed, the \<open>i\<close>-th at
  offset \<open>i * pagesize\<close> with a full logical page, their position strings are distinct,
  and \<open>total_bytes\<close> grows by \<open>M * pagesize\<close>.
\<close>

theorem sequential_coverage:
  assumes "\<not> sampling c" and "opt_offset_start c = 0" and "opt_offset_end c = 0"
      and "opt_page_start c = 0"
      and "0 < img_pagesize img" and "image_size img = M * img_pagesize img"
      and "max_bad_alloc_errors c \<noteq> 0" and "set (alloc_script st) \<subseteq> {Alloc_ok}"
      and "seen_page_ids st = {}" and "tp st = []"
  shows "\<exists>st'. send_data_to_workers c img lib st = Some (Inr st')
          \<and> length (tp st') = M
          \<and> map (offset \<circ> pos0) (tp st') = map (\<lambda>i. i * img_pagesize img) [0..<M]
          \<and> (\<forall>u\<in>set (tp st'). path (pos0 u) = [] \<and> pagesize u = img_pagesize img)
          \<and> distinct (map (pos0_str \<circ> pos0) (tp st'))
          \<and> total_bytes st' = total_bytes st + M * img_pagesize img"
proof -
  have "raw_offset it_begin = 0 * img_pagesize img" "0 \<le> M"
    by (simp_all add: it_begin_def)
  from sequential_run [OF assms(1,3,4,2,7,5,6) this assms(8,9), of "[]"] assms(10)
  obtain st' where run: "dispatch_loop c img [] it_begin st = Some st'"
    and tp': "tp st' = map (nth_page img) [0..<M]"
    and tb': "total_bytes st' = total_bytes st + M * img_pagesize img"
    by auto
  from assms(1,2) run have "send_data_to_workers c img lib st = Some (Inr st')"
    by (simp add: send_data_to_workers_def)
  moreover have "length (tp st') = M"
    by (simp add: tp')
  moreover have offs: "map (offset \<circ> pos0) (tp st') = map (\<lambda>i. i * img_pagesize img) [0..<M]"
    by (simp add: tp' nth_page_full(2) [OF assms(6)])
  moreover have leaf: "\<forall>u\<in>set (tp st'). path (pos0 u) = [] \<and> pagesize u = img_pagesize img"
    by (auto simp: tp' nth_page_full [OF assms(6)])
  moreover have "distinct (map (pos0_str \<circ> pos0) (tp st'))"
  proof (rule distinct_leaf_strings)
    from assms(5) have "sorted_wrt (<) (map (\<lambda>i. i * img_pagesize img) [0..<M])"
      by (simp add: sorted_wrt_map sorted_wrt_iff_nth_less)
    then show "sorted_wrt (<) (map (offset \<circ> pos0) (tp st'))"
      by (simp only: offs)
    from leaf show "\<forall>u\<in>set (tp st'). path (pos0 u) = []" by blast
  qed
  ultimately show ?thesis
    using tb' by blast
qed

theorem sequential_coverage_witness:
  "map_option (map_sum id (map (offset \<circ> pos0) \<circ> tp))
     (send_data_to_workers example_config example_image libstdcxx fresh_phase1)
     = Some (Inr [0, 2, 4])
   \<and> map_option (map_sum id (map (pos0_str \<circ> pos0) \<circ> tp))
     (send_data_to_workers example_config example_image libstdcxx fresh_phase1)
     = Some (Inr [''0'', ''2'', ''4''])
   \<and> image_size example_image = 3 * img_pagesize example_image"
proof -
  have size: "image_size example_image = 3 * img_pagesize example_image"
    by (simp add: example_image_def image_size_def)
  have "\<not> sampling example_config" "opt_offset_start example_config = 0"
    "opt_offset_end example_config = 0" "opt_page_start example_config = 0"
    "0 < img_pagesize example_image" "max_bad_alloc_errors example_config \<noteq> 0"
    "set (alloc_script fresh_phase1) \<subseteq> {Alloc_ok}" "seen_page_ids fresh_phase1 = {}"
    "tp fresh_phase1 = []"
    by (simp_all add: example_config_def example_image_def fresh_phase1_def)
  from sequential_coverage [OF this(1-5) size this(6-9), of libstdcxx]
  obtain st' where
    run: "send_data_to_workers example_config example_image libstdcxx fresh_phase1 = Some (Inr st')"
    and offs: "map (offset \<circ> pos0) (tp st') = map (\<lambda>i. i * img_pagesize example_image) [0..<3]"
    and leaf: "\<forall>u\<in>set (tp st'). path (pos0 u) = [] \<and> pagesize u = img_pagesize example_image"
    by blast
  have upt3: "[0..<3] = [0, 1, 2]"
    by (simp add: upt_rec)
  from offs have o: "map (offset \<circ> pos0) (tp st') = [0, 2, 4]"
    by (simp add: upt3 example_image_def)
  from leaf have "map (pos0_str \<circ> pos0) (tp st') = map (itos \<circ> (offset \<circ> pos0)) (tp st')"
    by (simp add: pos0_str_no_path)
  also have "\<dots> = map itos (map (offset \<circ> pos0) (tp st'))"
    by simp
  also have "\<dots> = [''0'', ''2'', ''4'']"
    unfolding o by (simp add: itos.simps digit_char_def)
  finally show ?thesis
    using run o size by simp
qed

text \<open>
  Without the condition on allocations the count is not \<open>M\<close>: a read error on the first
  page of a three-page image leaves two work units.
\<close>

theorem sequential_coverage_read_error_counterexample:
  "\<not> sampling example_config
   \<and> opt_offset_start example_config = 0 \<and> opt_offset_end example_config = 0
   \<and> opt_page_start example_config = 0
   \<and> image_size example_image = 3 * img_pagesize example_image
   \<and> map_option (map_sum id (map (offset \<circ> pos0) \<circ> tp))
       (send_data_to_workers example_config example_image libstdcxx
          (fresh_phase1\<lparr>alloc_script := [Alloc_throws ''read error'']\<rparr>))
     = Some (Inr [2, 4])
   \<and> length [2 :: nat, 4] \<noteq> 3"
  by (simp add: run_simps send_data_to_workers_def)

text \<open>
  Claim C8. With \<open>opt_offset_end\<close> set (nonzero), the dispatch loop stops at the first
  candidate page whose raw offset is at or beyond \<open>opt_offset_end\<close>, leaving the state as
  it is. At a candidate page that starts below \<open>opt_offset_end\<close> it does not stop: the
  loop body is run for that page and the loop goes on behind it, also when the page reaches
  beyond \<open>opt_offset_end\<close>. Every work unit a run pushes is for a page that starts
  below \<open>opt_offset_end\<close>; and a sequential run without page gates and without failed
  allocations over an image of \<open>M\<close> pages ends and pushes exactly the pages that start
  below \<open>opt_offset_end\<close>, in order.
\<close>

theorem offset_end_stops_dispatch:
  assumes "opt_offset_end c \<noteq> 0"
  shows "(\<forall>it1. candidate c img si it = Some it1 \<and> opt_offset_end c \<le> raw_offset it1
            \<longrightarrow> dispatch_loop c img si it st = Some st)
       \<and> (\<forall>it1. candidate c img si it = Some it1 \<and> raw_offset it1 < opt_offset_end c
            \<longrightarrow> dispatch_loop c img si it st
                  = dispatch_loop c img (if sampling c then tl si else si)
                      (if sampling c then it1 else it_next img it1) (process_page c img it1 st))
       \<and> (\<forall>st'. dispatch_loop c img si it st = Some st'
            \<longrightarrow> (\<exists>new. tp st' = tp st @ new
                    \<and> (\<forall>s\<in>set new. offset (pos0 s) < opt_offset_end c)))
       \<and> (\<not> sampling c \<and> opt_page_start c = 0 \<and> opt_offset_start c = 0
            \<and> max_bad_alloc_errors c \<noteq> 0
            \<and> 0 < img_pagesize img \<and> image_size img = M * img_pagesize img
            \<and> set (alloc_script st) \<subseteq> {Alloc_ok} \<and> seen_page_ids st = {}
            \<longrightarrow> (\<exists>st'. dispatch_loop c img [] it_begin st = Some st'
                    \<and> tp st' = tp st @ map (nth_page img)
                         (filter (\<lambda>i. i * img_pagesize img < opt_offset_end c) [0..<M])))"
proof (intro conjI allI impI)
  fix it1
  assume "candidate c img si it = Some it1 \<and> opt_offset_end c \<le> raw_offset it1"
  with assms show "dispatch_loop c img si it st = Some st"
    by (subst dispatch_loop.simps) (simp add: past_offset_end_def)
next
  fix it1
  assume "candidate c img si it = Some it1 \<and> raw_offset it1 < opt_offset_end c"
  then show "dispatch_loop c img si it st
               = dispatch_loop c img (if sampling c then tl si else si)
                   (if sampling c then it1 else it_next img it1) (process_page c img it1 st)"
    by (subst dispatch_loop.simps) (simp add: past_offset_end_def)
next
  fix st'
  assume run: "dispatch_loop c img si it st = Some st'"
  let ?I = "\<lambda>(si :: blocklist_t) (it :: iterator) (s :: phase1).
              \<exists>new. tp s = tp st @ new \<and> (\<forall>s\<in>set new. offset (pos0 s) < opt_offset_end c)"
  have "\<exists>si' it'. ?I si' it' st'"
  proof (rule dispatch_loop_rule [OF run, where I = ?I])
    show "?I si it st" by simp
  next
    fix si it it1 and s :: phase1
    assume inv: "?I si it s" and "candidate c img si it = Some it1"
      and "\<not> past_offset_end c it1"
    with assms have lt: "raw_offset it1 < opt_offset_end c"
      by (simp add: past_offset_end_def)
    from inv obtain new where new: "tp s = tp st @ new"
      "\<forall>s\<in>set new. offset (pos0 s) < opt_offset_end c" by blast
    from process_page_tp [of c img it1 s]
    show "?I (if sampling c then tl si else si)
            (if sampling c then it1 else it_next img it1) (process_page c img it1 s)"
    proof
      assume "tp (process_page c img it1 s) = tp s"
      with new show ?thesis by auto
    next
      assume "tp (process_page c img it1 s) = tp s @ [page_at img it1]
        \<and> opt_page_start c \<le> page_number it1 \<and> opt_offset_start c \<le> raw_offset it1
        \<and> pos0_str (get_pos0 it1) \<notin> seen_page_ids s"
      with new lt have "tp (process_page c img it1 s) = tp st @ (new @ [page_at img it1])"
        "\<forall>s\<in>set (new @ [page_at img it1]). offset (pos0 s) < opt_offset_end c"
        by auto
      then show ?thesis by blast
    qed
  qed
  then show "\<exists>new. tp st' = tp st @ new \<and> (\<forall>s\<in>set new. offset (pos0 s) < opt_offset_end c)"
    by simp
next
  assume h: "\<not> sampling c \<and> opt_page_start c = 0 \<and> opt_offset_start c = 0
            \<and> max_bad_alloc_errors c \<noteq> 0
            \<and> 0 < img_pagesize img \<and> image_size img = M * img_pagesize img
            \<and> set (alloc_script st) \<subseteq> {Alloc_ok} \<and> seen_page_ids st = {}"
  have "raw_offset it_begin = 0 * img_pagesize img" "0 \<le> M"
    by (simp_all add: it_begin_def)
  with h assms
  show "\<exists>st'. dispatch_loop c img [] it_begin st = Some st'
          \<and> tp st' = tp st @ map (nth_page img)
               (filter (\<lambda>i. i * img_pagesize img < opt_offset_end c) [0..<M])"
    by (intro sequential_run_until [where k = 0]) simp_all
qed

theorem offset_end_stops_dispatch_witness:
  "opt_offset_end (example_config\<lparr>opt_offset_end := 3\<rparr>) \<noteq> 0
   \<and> candidate (example_config\<lparr>opt_offset_end := 3\<rparr>) example_image []
        \<lparr>raw_offset = 4, page_number = 2\<rparr> = Some \<lparr>raw_offset = 4, page_number = 2\<rparr>
   \<and> dispatch_loop (example_config\<lparr>opt_offset_end := 3\<rparr>) example_image []
        \<lparr>raw_offset = 4, page_number = 2\<rparr> fresh_phase1 = Some fresh_phase1
   \<and> candidate (example_config\<lparr>opt_offset_end := 3\<rparr>) example_image []
        \<lparr>raw_offset = 2, page_number = 1\<rparr> = Some \<lparr>raw_offset = 2, page_number = 1\<rparr>
   \<and> dispatch_loop (example_config\<lparr>opt_offset_end := 3\<rparr>) example_image []
        \<lparr>raw_offset = 2, page_number = 1\<rparr> fresh_phase1
      = dispatch_loop (example_config\<lparr>opt_offset_end := 3\<rparr>) example_image []
          \<lparr>raw_offset = 4, page_number = 2\<rparr>
          (process_page (example_config\<lparr>opt_offset_end := 3\<rparr>) example_image
             \<lparr>raw_offset = 2, page_number = 1\<rparr> fresh_phase1)
   \<and> map_option (map (offset \<circ> pos0) \<circ> tp)
        (dispatch_loop (example_config\<lparr>opt_offset_end := 3\<rparr>) example_image [] it_begin
           fresh_phase1) = Some [0, 2]"
proof -
  let ?c = "example_config\<lparr>opt_offset_end := 3\<rparr>"
  let ?it2 = "\<lparr>raw_offset = 4, page_number = 2\<rparr>"
  let ?it1 = "\<lparr>raw_offset = 2, page_number = 1\<rparr>"
  have h: "opt_offset_end ?c \<noteq> 0"
    by (simp add: example_config_def)
  have cand2: "candidate ?c example_image [] ?it2 = Some ?it2 \<and> opt_offset_end ?c \<le> raw_offset ?it2"
    by (simp add: example_config_def example_image_def candidate_def it_at_end_def image_size_def)
  have cand1: "candidate ?c example_image [] ?it1 = Some ?it1 \<and> raw_offset ?it1 < opt_offset_end ?c"
    by (simp add: example_config_def example_image_def candidate_def it_at_end_def image_size_def)
  have seq: "\<not> sampling ?c" and next1: "it_next example_image ?it1 = ?it2"
    by (simp_all add: example_config_def example_image_def it_next_def)
  have clean: "\<not> sampling ?c \<and> opt_page_start ?c = 0 \<and> opt_offset_start ?c = 0
            \<and> max_bad_alloc_errors ?c \<noteq> 0
            \<and> 0 < img_pagesize example_image
            \<and> image_size example_image = 3 * img_pagesize example_image
            \<and> set (alloc_script fresh_phase1) \<subseteq> {Alloc_ok} \<and> seen_page_ids fresh_phase1 = {}"
    by (simp add: example_config_def example_image_def fresh_phase1_def image_size_def)
  have upt3: "[0..<3] = [0, 1, 2]"
    by (simp add: upt_rec)
  from offset_end_stops_dispatch [OF h, of example_image "[]" ?it2 fresh_phase1 3] cand2
  have stop: "dispatch_loop ?c example_image [] ?it2 fresh_phase1 = Some fresh_phase1"
    by blast
  from offset_end_stops_dispatch [OF h, of example_image "[]" ?it1 fresh_phase1 3] cand1 seq
  have go: "dispatch_loop ?c example_image [] ?it1 fresh_phase1
      = dispatch_loop ?c example_image [] (it_next example_image ?it1)
          (process_page ?c example_image ?it1 fresh_phase1)"
    by simp
  from offset_end_stops_dispatch [OF h, of example_image "[]" ?it1 fresh_phase1 3] clean
  obtain st' where run: "dispatch_loop ?c example_image [] it_begin fresh_phase1 = Some st'"
    and tp': "tp st' = tp fresh_phase1 @ map (nth_page example_image)
                (filter (\<lambda>i. i * img_pagesize example_image < opt_offset_end ?c) [0..<3])"
    by blast
  from tp' have "map (offset \<circ> pos0) (tp st') = [0, 2]"
    by (simp add: upt3 fresh_phase1_def example_image_def example_config_def nth_page_def
          page_at_def get_pos0_def)
  with run have all: "map_option (map (offset \<circ> pos0) \<circ> tp)
        (dispatch_loop ?c example_image [] it_begin fresh_phase1) = Some [0, 2]"
    by simp
  from h cand2 stop cand1 go all show ?thesis
    by (simp only: next1) simp
qed




text \<open>
  Claim C10. With \<open>max_bad_alloc_errors = 0\<close> the loop of \<^verbatim>\<open>get_sbuf\<close> is not
  entered: the function throws the too-many-allocation-errors exception and leaves the state
  as it was, so \<^verbatim>\<open>sbuf_alloc\<close> is not called at all; and a dispatch loop that runs
  under this configuration pushes no work unit and makes no allocation call.
\<close>

theorem zero_error_budget_acquires_nothing:
  assumes "max_bad_alloc_errors c = 0"
  shows "get_sbuf c img it st = (Inl (Runtime_error ''too many sbuf allocation errors''), st)
       \<and> (\<forall>si st'. dispatch_loop c img si it st = Some st'
              \<longrightarrow> tp st' = tp st \<and> alloc_calls st' = alloc_calls st)"
proof (intro conjI allI impI)
  show "get_sbuf c img it st = (Inl (Runtime_error ''too many sbuf allocation errors''), st)"
    using assms by (rule get_sbuf_exhausted)
next
  fix si st'
  assume run: "dispatch_loop c img si it st = Some st'"
  have "\<exists>(si' :: blocklist_t) (it' :: iterator).
          tp st' = tp st \<and> alloc_calls st' = alloc_calls st"
    by (rule dispatch_loop_rule
          [OF run, where I = "\<lambda>si it s. tp s = tp st \<and> alloc_calls s = alloc_calls st"])
       (simp_all add: process_page_exhausted [OF assms])
  then show "tp st' = tp st" and "alloc_calls st' = alloc_calls st"
    by simp_all
qed

theorem zero_error_budget_acquires_nothing_witness:
  "max_bad_alloc_errors (example_config\<lparr>max_bad_alloc_errors := 0\<rparr>) = 0
   \<and> get_sbuf (example_config\<lparr>max_bad_alloc_errors := 0\<rparr>) example_image it_begin fresh_phase1
       = (Inl (Runtime_error ''too many sbuf allocation errors''), fresh_phase1)
   \<and> map_option tp
        (dispatch_loop (example_config\<lparr>max_bad_alloc_errors := 0\<rparr>) example_image [] it_begin
           fresh_phase1) = Some []
   \<and> map_option alloc_calls
        (dispatch_loop (example_config\<lparr>max_bad_alloc_errors := 0\<rparr>) example_image [] it_begin
           fresh_phase1) = Some 0"
proof -
  let ?c = "example_config\<lparr>max_bad_alloc_errors := 0\<rparr>"
  have h: "max_bad_alloc_errors ?c = 0"
    by (simp add: example_config_def)
  have "\<exists>st'. dispatch_loop ?c example_image [] it_begin fresh_phase1 = Some st'"
    by (simp add: run_simps)
  then obtain st' where run: "dispatch_loop ?c example_image [] it_begin fresh_phase1 = Some st'"
    by blast
  from zero_error_budget_acquires_nothing [OF h, of example_image it_begin fresh_phase1] run h
  show ?thesis
    by (simp add: fresh_phase1_def)
qed

end
